theory Spec2Isabelle
  imports Complex_Main "HOL-Library.AList" "HOL-Library.Word"
begin

section \<open>Data model\<close>

text \<open>
  The engine resolves builders, each producing one data type (\<open>provides\<close>) from the data
  types it \<open>consumes\<close>, into an execution order. JavaScript \<open>Map\<close>s are association lists
  in insertion order (\<open>map_of\<close> reads them, a new key is appended at the end); a JavaScript
  \<open>Set\<close> that is iterated is a duplicate-free list in insertion order (\<open>set_add\<close>), one that
  is only asked for membership is a HOL set.
\<close>

record DataBuilderMeta =
  name :: string
  provides :: string
  consumes :: "string list"

text \<open>
  A \<open>DependencyNode\<close> holds its two relation sets. The node objects of a graph are in
  bijection with the keys of the graph's map (\<open>addBuilder\<close> stores the node of a meta under
  \<open>meta.provides\<close>), so the sets hold keys.
\<close>

record DependencyNode =
  meta :: DataBuilderMeta
  dependencies :: "string list"
  dependents :: "string list"

type_synonym DependencyGraph = "(string \<times> DependencyNode) list"

definition set_add :: "'a \<Rightarrow> 'a list \<Rightarrow> 'a list" where
  "set_add x xs = (if x \<in> set xs then xs else xs @ [x])"

text \<open>\<open>Array.prototype.join\<close> on an array of strings.\<close>

fun join :: "string \<Rightarrow> string list \<Rightarrow> string" where
  "join sep [] = []"
| "join sep [x] = x"
| "join sep (x # y # ys) = x @ sep @ join sep (y # ys)"

section \<open>DependencyGraph\<close>

definition addBuilder :: "DataBuilderMeta \<Rightarrow> DependencyGraph \<Rightarrow> DependencyGraph" where
  "addBuilder m g =
     (if map_of g (provides m) \<noteq> None then g
      else g @ [(provides m, \<lparr>meta = m, dependencies = [], dependents = []\<rparr>)])"

text \<open>\<open>node.addDependency(dependency)\<close> for the nodes stored under \<open>k\<close> and \<open>d\<close>.\<close>

definition addDependency :: "string \<Rightarrow> string \<Rightarrow> DependencyGraph \<Rightarrow> DependencyGraph" where
  "addDependency k d g =
     AList.map_entry d (\<lambda>n. n\<lparr>dependents := set_add k (dependents n)\<rparr>)
       (AList.map_entry k (\<lambda>n. n\<lparr>dependencies := set_add d (dependencies n)\<rparr>) g)"

definition buildGraph :: "DependencyGraph \<Rightarrow> DependencyGraph" where
  "buildGraph g =
     fold (\<lambda>(k, node) acc.
             fold (\<lambda>consumedType acc'.
                     if map_of acc' consumedType \<noteq> None then addDependency k consumedType acc'
                     else acc')
                  (consumes (meta node)) acc)
          g
          (map (\<lambda>(k, node). (k, node\<lparr>dependencies := [], dependents := []\<rparr>)) g)"

definition node_dependencies :: "DependencyGraph \<Rightarrow> string \<Rightarrow> string list" where
  "node_dependencies g k = (case map_of g k of None \<Rightarrow> [] | Some n \<Rightarrow> dependencies n)"

definition graph_keys :: "DependencyGraph \<Rightarrow> string set" where
  "graph_keys g = fst ` set g"

subsection \<open>getExecutionOrder\<close>

text \<open>
  The closure \<open>visit\<close> of \<open>getExecutionOrder\<close> threads the set \<open>visited\<close> and the array
  \<open>result\<close>; \<open>visit_each\<close> is its loop over \<open>node.dependencies\<close>. A node is marked visited
  before its dependencies are entered and appended after they return.
\<close>

function visit :: "DependencyGraph \<Rightarrow> string \<Rightarrow> string set \<times> string list \<Rightarrow> string set \<times> string list"
  and visit_each :: "DependencyGraph \<Rightarrow> string list \<Rightarrow> string set \<times> string list \<Rightarrow> string set \<times> string list"
where
  "visit g node (visited, result) =
     (if node \<in> visited then (visited, result)
      else (case visit_each g (node_dependencies g node) (insert node visited, result) of
              (visited', result') \<Rightarrow> (visited', result' @ [node])))"
| "visit_each g [] st = st"
| "visit_each g (d # ds) st = visit_each g ds (visit g d st)"
  by pat_completeness auto

lemma visit_grows_dom:
  "visit_visit_each_dom (Inl (g, k, st)) \<Longrightarrow> fst st \<subseteq> fst (visit g k st)"
  "visit_visit_each_dom (Inr (g, ds, st)) \<Longrightarrow> fst st \<subseteq> fst (visit_each g ds st)"
  by (induct rule: visit_visit_each.pinduct)
     (auto simp: visit.psimps visit_each.psimps split: prod.splits)

lemma absent_node_no_dependencies:
  assumes "k \<notin> graph_keys g"
  shows "node_dependencies g k = []"
proof -
  have "map_of g k = None" using assms by (simp add: graph_keys_def map_of_eq_None_iff)
  then show ?thesis by (simp add: node_dependencies_def)
qed

lemma unvisited_shrinks:
  "k \<in> graph_keys g \<Longrightarrow> k \<notin> visited \<Longrightarrow>
     card (graph_keys g - insert k visited) < card (graph_keys g - visited)"
  by (intro psubset_card_mono) (auto simp: graph_keys_def)

lemma unvisited_antimono:
  "visited \<subseteq> visited' \<Longrightarrow> card (graph_keys g - visited') \<le> card (graph_keys g - visited)"
  by (intro card_mono) (auto simp: graph_keys_def)

termination visit
proof (relation "inv_image (less_than <*lex*> less_than)
    (\<lambda>x. case x of
       Inl (g, k, st) \<Rightarrow> (card (graph_keys g - fst st), 1)
     | Inr (g, ds, st) \<Rightarrow> (card (graph_keys g - fst st), 2 * length ds))", goal_cases)
  case 1
  show ?case by (intro wf_inv_image wf_lex_prod wf_less_than)
next
  case (2 g node visited result)
  show ?case
  proof (cases "node \<in> graph_keys g")
    case True
    then show ?thesis using 2 unvisited_shrinks[of node g visited] by simp
  next
    case False
    then have "graph_keys g - insert node visited = graph_keys g - visited" by auto
    then show ?thesis using False by (simp add: absent_node_no_dependencies)
  qed
next
  case (3 g d ds st)
  then show ?case by (cases st) simp
next
  case (4 g d ds st)
  have "fst st \<subseteq> fst (visit g d st)" using 4 visit_grows_dom(1) by blast
  then show ?case
    using unvisited_antimono[of "fst st" "fst (visit g d st)" g]
    by (cases st; cases "visit g d st") auto
qed

definition getExecutionOrder :: "DependencyGraph \<Rightarrow> string list \<Rightarrow> string list" where
  "getExecutionOrder g targetTypes =
     snd (fold (\<lambda>targetType st.
                  case map_of g targetType of None \<Rightarrow> st | Some node \<Rightarrow> visit g targetType st)
               targetTypes ({}, []))"

definition buildDependencyGraph :: "DataBuilderMeta list \<Rightarrow> DependencyGraph" where
  "buildDependencyGraph metadata = buildGraph (fold addBuilder metadata [])"

subsection \<open>detectCycles\<close>

text \<open>
  The closure \<open>dfs\<close> threads \<open>visited\<close>, \<open>recursionStack\<close> and the array \<open>cycles\<close>, and
  returns whether a cycle was met; \<open>dfs_each\<close> is its loop over the dependencies, which
  returns at the first call that met one. A call that returns \<open>true\<close> leaves its key on
  the recursion stack.
\<close>

type_synonym cycle_state = "string set \<times> string set \<times> string list"

function dfs :: "DependencyGraph \<Rightarrow> string \<Rightarrow> string list \<Rightarrow> cycle_state \<Rightarrow> bool \<times> cycle_state"
  and dfs_each :: "DependencyGraph \<Rightarrow> string list \<Rightarrow> string list \<Rightarrow> cycle_state \<Rightarrow> bool \<times> cycle_state"
where
  "dfs g nodeKey path (visited, recursionStack, cycles) =
     (if nodeKey \<in> recursionStack then
        (True, (visited, recursionStack,
                cycles @ [''Cycle detected: '' @ join '' -> '' path @ '' -> '' @ nodeKey]))
      else if nodeKey \<in> visited then (False, (visited, recursionStack, cycles))
      else (let r = dfs_each g (node_dependencies g nodeKey) (path @ [nodeKey])
                     (insert nodeKey visited, insert nodeKey recursionStack, cycles)
            in if fst r then (True, snd r)
               else (case snd r of (visited', recursionStack', cycles') \<Rightarrow>
                       (False, (visited', recursionStack' - {nodeKey}, cycles')))))"
| "dfs_each g [] path st = (False, st)"
| "dfs_each g (dep # deps) path st =
     (let r = dfs g dep path st
      in if fst r then (True, snd r) else dfs_each g deps path (snd r))"
  by pat_completeness auto

lemma dfs_grows_dom:
  "dfs_dfs_each_dom (Inl (g, k, p, st)) \<Longrightarrow> fst st \<subseteq> fst (snd (dfs g k p st))"
  "dfs_dfs_each_dom (Inr (g, ds, p, st)) \<Longrightarrow> fst st \<subseteq> fst (snd (dfs_each g ds p st))"
  by (induct rule: dfs_dfs_each.pinduct)
     (auto simp: dfs.psimps dfs_each.psimps Let_def split: prod.splits if_splits)

termination dfs
proof (relation "inv_image (less_than <*lex*> less_than)
    (\<lambda>x. case x of
       Inl (g, k, p, st) \<Rightarrow> (card (graph_keys g - fst st), 1)
     | Inr (g, ds, p, st) \<Rightarrow> (card (graph_keys g - fst st), 2 * length ds))", goal_cases)
  case 1
  show ?case by (intro wf_inv_image wf_lex_prod wf_less_than)
next
  case (2 g nodeKey path visited recursionStack cycles)
  show ?case
  proof (cases "nodeKey \<in> graph_keys g")
    case True
    then show ?thesis using 2 unvisited_shrinks[of nodeKey g visited] by simp
  next
    case False
    then have "graph_keys g - insert nodeKey visited = graph_keys g - visited" by auto
    then show ?thesis using False by (simp add: absent_node_no_dependencies)
  qed
next
  case (3 g dep deps path st)
  then show ?case by (cases st) simp
next
  case (4 g dep deps path st r)
  have "fst st \<subseteq> fst (snd (dfs g dep path st))" using 4 dfs_grows_dom(1) by blast
  then show ?case
    using unvisited_antimono[of "fst st" "fst (snd (dfs g dep path st))" g] 4
    by (cases st; cases "snd (dfs g dep path st)") auto
qed

definition detectCycles :: "DependencyGraph \<Rightarrow> string list" where
  "detectCycles g =
     snd (snd (fold (\<lambda>nodeKey st. if nodeKey \<notin> fst st then snd (dfs g nodeKey [] st) else st)
                 (map fst g) ({}, {}, [])))"

subsection \<open>findMissingDependencies\<close>

text \<open>
  \<open>checkDependencies\<close> follows \<open>meta.consumes\<close> (not the wired edges) from each target and
  collects, in a \<open>Set\<close>, the keys that have no node.
\<close>

function checkDependencies :: "DependencyGraph \<Rightarrow> string \<Rightarrow> string set \<times> string list \<Rightarrow> string set \<times> string list"
  and checkDependencies_each :: "DependencyGraph \<Rightarrow> string list \<Rightarrow> string set \<times> string list \<Rightarrow> string set \<times> string list"
where
  "checkDependencies g nodeKey (visited, missing) =
     (if nodeKey \<in> visited then (visited, missing)
      else (case map_of g nodeKey of
              None \<Rightarrow> (insert nodeKey visited, set_add nodeKey missing)
            | Some node \<Rightarrow> checkDependencies_each g (consumes (meta node)) (insert nodeKey visited, missing)))"
| "checkDependencies_each g [] st = st"
| "checkDependencies_each g (c # cs) st = checkDependencies_each g cs (checkDependencies g c st)"
  by pat_completeness auto

lemma checkDependencies_grows_dom:
  "checkDependencies_checkDependencies_each_dom (Inl (g, k, st)) \<Longrightarrow> fst st \<subseteq> fst (checkDependencies g k st)"
  "checkDependencies_checkDependencies_each_dom (Inr (g, cs, st)) \<Longrightarrow> fst st \<subseteq> fst (checkDependencies_each g cs st)"
  by (induct rule: checkDependencies_checkDependencies_each.pinduct)
     (auto simp: checkDependencies.psimps checkDependencies_each.psimps split: option.splits)

termination checkDependencies
proof (relation "inv_image (less_than <*lex*> less_than)
    (\<lambda>x. case x of
       Inl (g, k, st) \<Rightarrow> (card (graph_keys g - fst st), 0)
     | Inr (g, cs, st) \<Rightarrow> (card (graph_keys g - fst st), Suc (length cs)))", goal_cases)
  case 1
  show ?case by (intro wf_inv_image wf_lex_prod wf_less_than)
next
  case (2 g nodeKey visited missing node)
  then have "nodeKey \<in> graph_keys g" by (auto simp: graph_keys_def dest: map_of_SomeD intro: rev_image_eqI)
  then show ?case using 2 unvisited_shrinks[of nodeKey g visited] by simp
next
  case (3 g c cs st)
  then show ?case by (cases st) simp
next
  case (4 g c cs st)
  have "fst st \<subseteq> fst (checkDependencies g c st)" using 4 checkDependencies_grows_dom(1) by blast
  then show ?case
    using unvisited_antimono[of "fst st" "fst (checkDependencies g c st)" g]
    by (cases st; cases "checkDependencies g c st") auto
qed

definition findMissingDependencies :: "DependencyGraph \<Rightarrow> string list \<Rightarrow> string list" where
  "findMissingDependencies g targetTypes =
     snd (fold (checkDependencies g) targetTypes ({}, []))"

section \<open>ExecutionPlanner\<close>

text \<open>
  An error object is its class name (the \<open>name\<close> property), its message and its \<open>cause\<close>
  property, \<open>None\<close> when that is \<open>undefined\<close>; causes that are not error objects are not
  modelled. \<open>JsError n m\<close> is an error without a cause. The planner reads the registry
  through \<open>getAllMetadata\<close> only, so it takes that list.
\<close>

datatype JsError =
  JsErrorObject (error_name: string) (message: string) (error_cause: "JsError option")

abbreviation JsError :: "string \<Rightarrow> string \<Rightarrow> JsError" where
  "JsError n m \<equiv> JsErrorObject n m None"

definition CircularDependencyError :: "string list \<Rightarrow> JsError" where
  "CircularDependencyError cycles =
     JsError ''CircularDependencyError'' (''Circular dependencies detected: '' @ join '', '' cycles)"

definition MissingBuilderError :: "string list \<Rightarrow> JsError" where
  "MissingBuilderError missingTypes =
     JsError ''MissingBuilderError'' (''Missing builders for data types: '' @ join '', '' missingTypes)"

subsection \<open>calculateParallelLevels\<close>

text \<open>
  One round of the \<open>while\<close> loop collects the entries of the order that are not processed
  and whose dependencies all are; the loop ends when \<open>remaining\<close> is empty, or at a round
  that collects nothing.
\<close>

definition allDepsProcessed :: "DependencyGraph \<Rightarrow> string set \<Rightarrow> string \<Rightarrow> bool" where
  "allDepsProcessed g processed k = list_all (\<lambda>dep. dep \<in> processed) (node_dependencies g k)"

definition currentLevel :: "DependencyGraph \<Rightarrow> string list \<Rightarrow> string set \<Rightarrow> string list" where
  "currentLevel g executionOrder processed =
     filter (\<lambda>k. k \<notin> processed \<and> allDepsProcessed g processed k) executionOrder"

function calculateParallelLevels_loop ::
  "DependencyGraph \<Rightarrow> string list \<Rightarrow> string list list \<times> string set \<times> string set \<Rightarrow> string list list"
where
  "calculateParallelLevels_loop g executionOrder (levels, processed, remaining) =
     (if remaining = {} then levels
      else (let level = currentLevel g executionOrder processed
            in if level = [] then levels
               else calculateParallelLevels_loop g executionOrder
                      (levels @ [level], processed \<union> set level, remaining - set level)))"
  by pat_completeness auto

termination calculateParallelLevels_loop
proof (relation "measure (\<lambda>(g, executionOrder, levels, processed, remaining).
                            card (set executionOrder - processed))", goal_cases)
  case 1
  show ?case by simp
next
  case (2 g executionOrder levels processed remaining level)
  then obtain k where k: "k \<in> set (currentLevel g executionOrder processed)"
    by (cases "currentLevel g executionOrder processed") auto
  then have "k \<in> set executionOrder - processed" by (auto simp: currentLevel_def)
  then have "set executionOrder - (processed \<union> set level) \<subset> set executionOrder - processed"
    using k 2 by auto
  then have "card (set executionOrder - (processed \<union> set level)) < card (set executionOrder - processed)"
    by (intro psubset_card_mono) auto
  then show ?case by simp
qed

definition calculateParallelLevels :: "DependencyGraph \<Rightarrow> string list \<Rightarrow> string list list" where
  "calculateParallelLevels g executionOrder =
     calculateParallelLevels_loop g executionOrder ([], {}, set executionOrder)"

subsection \<open>createExecutionPlan, validateExecutionPlan\<close>

record ExecutionPlan =
  executionOrder :: "string list"
  parallelExecutionLevels :: "string list list"
  missingBuilders :: "string list"
  cycles :: "string list"
  isValid :: bool
  totalBuilders :: nat
  maxConcurrency :: nat
  dependencyGraph :: DependencyGraph

definition createExecutionPlan :: "DataBuilderMeta list \<Rightarrow> string list \<Rightarrow> ExecutionPlan" where
  "createExecutionPlan metadata targetData =
     (let g = buildDependencyGraph metadata;
          cyc = detectCycles g;
          missing = findMissingDependencies g targetData;
          valid = (length cyc = 0 \<and> length missing = 0)
      in if valid then
           (let nodes = getExecutionOrder g targetData;
                levels = calculateParallelLevels g nodes
            in \<lparr>executionOrder = nodes,
                parallelExecutionLevels = levels,
                missingBuilders = missing, cycles = cyc, isValid = valid,
                totalBuilders = length nodes,
                maxConcurrency = (case map length levels of [] \<Rightarrow> 0 | c # cs \<Rightarrow> fold max cs c),
                dependencyGraph = g\<rparr>)
         else \<lparr>executionOrder = [], parallelExecutionLevels = [],
                missingBuilders = missing, cycles = cyc, isValid = valid,
                totalBuilders = 0, maxConcurrency = 0, dependencyGraph = g\<rparr>)"

definition validateExecutionPlan :: "ExecutionPlan \<Rightarrow> JsError + unit" where
  "validateExecutionPlan plan =
     (if length (cycles plan) > 0 then Inl (CircularDependencyError (cycles plan))
      else if length (missingBuilders plan) > 0 then Inl (MissingBuilderError (missingBuilders plan))
      else Inr ())"

subsection \<open>getExecutionPlanStats\<close>

text \<open>
  A JavaScript \<open>number\<close> is a real number, or \<open>None\<close> for the values \<open>NaN\<close>, \<open>Infinity\<close>
  and \<open>-Infinity\<close>: a division by zero gives one of them, and arithmetic on \<open>NaN\<close> gives
  \<open>NaN\<close>. Rounding is not modelled. The counts of a plan are natural numbers.
\<close>

type_synonym number = "real option"

definition js_divide :: "real \<Rightarrow> real \<Rightarrow> number" where
  "js_divide a b = (if b = 0 then None else Some (a / b))"

record PlanStats =
  sequentialEstimate :: nat
  parallelLevels :: nat
  averageConcurrency :: number
  dependencyDepth :: nat
  complexityScore :: number

text \<open>
  \<open>calculateConcurrencyVariance\<close> divides by \<open>concurrencies.length\<close> only when there are at
  least two levels.
\<close>

definition calculateConcurrencyVariance :: "string list list \<Rightarrow> number" where
  "calculateConcurrencyVariance levels =
     (if length levels \<le> 1 then Some 0
      else (let concurrencies = map (\<lambda>level. real (length level)) levels;
                mean = foldl (\<lambda>sum c. sum + c) 0 concurrencies / real (length concurrencies);
                variance = foldl (\<lambda>sum c. sum + (c - mean)\<^sup>2) 0 concurrencies
                             / real (length concurrencies)
            in js_divide (sqrt variance) mean))"

definition getExecutionPlanStats :: "ExecutionPlan \<Rightarrow> PlanStats" where
  "getExecutionPlanStats plan =
     (if \<not> isValid plan then
        \<lparr>sequentialEstimate = 0, parallelLevels = 0, averageConcurrency = Some 0,
         dependencyDepth = 0, complexityScore = Some 0\<rparr>
      else (let levelCount = length (parallelExecutionLevels plan);
                total = totalBuilders plan;
                average = (if total > 0 then js_divide (real total) (real levelCount) else Some 0);
                depth = levelCount;
                concurrencyVariance = calculateConcurrencyVariance (parallelExecutionLevels plan)
            in \<lparr>sequentialEstimate = total, parallelLevels = levelCount,
                averageConcurrency = average, dependencyDepth = depth,
                complexityScore =
                  map_option (\<lambda>v. real total * real depth * (1 + v)) concurrencyVariance\<rparr>))"

section \<open>Datasets, builders and the registry\<close>

record Data =
  type :: string
  payload :: string

text \<open>
  \<open>DataSetImpl\<close> wraps a \<open>Map\<close> from type to data object; \<open>add\<close> stores an object under
  its own \<open>type\<close> and replaces an object stored there. A \<open>DataSet\<close> handed in by a caller
  is a \<open>DataSetImpl\<close> or some other implementation of the interface.
\<close>

type_synonym DataSetImpl = "(string \<times> Data) list"

definition contains :: "DataSetImpl \<Rightarrow> string \<Rightarrow> bool" where
  "contains ds dataType = (map_of ds dataType \<noteq> None)"

definition accessor :: "DataSetImpl \<Rightarrow> string \<Rightarrow> Data option" where
  "accessor ds dataType = map_of ds dataType"

definition add :: "Data \<Rightarrow> DataSetImpl \<Rightarrow> DataSetImpl" where
  "add d ds = AList.update (type d) d ds"

definition clone :: "DataSetImpl \<Rightarrow> DataSetImpl" where
  "clone ds = ds"

datatype DataSet = IsDataSetImpl DataSetImpl | OtherDataSet "(string \<times> Data) list"

text \<open>
  A promise settles some milliseconds after its creation, or never. A rejection carries
  the thrown value: an \<open>Error\<close> object, or another value, of which the engine reads
  \<open>String(value)\<close> only.
\<close>

datatype thrown = ErrorObject JsError | OtherValue string

datatype ('a, 'e) promise = Resolves nat 'a | Rejects nat 'e | NeverSettles

text \<open>
  A builder is its metadata (\<open>name\<close> is \<open>constructor.name\<close>) and its \<open>build\<close> method, a
  function of the contents of the dataset it is given. When the promise of \<open>build\<close> and a
  timer fall due in the same millisecond, the order in which the event loop handles them
  depends on how the builder settles its promise and on the runtime; the source does not
  decide it, and \<open>settlesBeforeTimer\<close> stands for it.
\<close>

record DataBuilder = DataBuilderMeta +
  build :: "DataSetImpl \<Rightarrow> (Data, thrown) promise"
  settlesBeforeTimer :: bool

type_synonym BuilderRegistry = "(string \<times> DataBuilder) list"


section \<open>ExecutionStatisticsCollector\<close>

text \<open>
  The collector without its clock: \<open>startTime\<close> and the \<open>totalExecutionTime\<close> of the
  snapshot are readings of \<open>Date.now()\<close> and are left out; the snapshot that
  \<open>stopExecution\<close> returns is the record itself.
\<close>

record ExecutionStatisticsCollector =
  builderExecutionTimes :: "(string \<times> nat) list"
  buildersExecuted :: nat
  skipCount :: nat
  parallelExecution :: bool
  statParallelLevels :: "nat option"
  statMaxConcurrency :: "nat option"


definition reset :: "ExecutionStatisticsCollector \<Rightarrow> ExecutionStatisticsCollector" where
  "reset c = \<lparr>builderExecutionTimes = [], buildersExecuted = 0, skipCount = 0,
              parallelExecution = False, statParallelLevels = None, statMaxConcurrency = None\<rparr>"

definition startExecution :: "ExecutionStatisticsCollector \<Rightarrow> ExecutionStatisticsCollector" where
  "startExecution c = reset c"

definition stopExecution :: "ExecutionStatisticsCollector \<Rightarrow> ExecutionStatisticsCollector" where
  "stopExecution c = c"

definition recordBuilderExecution ::
  "string \<Rightarrow> nat \<Rightarrow> ExecutionStatisticsCollector \<Rightarrow> ExecutionStatisticsCollector" where
  "recordBuilderExecution dataType time c =
     c\<lparr>builderExecutionTimes := AList.update dataType time (builderExecutionTimes c),
       buildersExecuted := buildersExecuted c + 1\<rparr>"

definition recordSkippedBuilder :: "ExecutionStatisticsCollector \<Rightarrow> ExecutionStatisticsCollector" where
  "recordSkippedBuilder c = c\<lparr>skipCount := skipCount c + 1\<rparr>"

definition setParallelExecutionInfo ::
  "nat \<Rightarrow> nat \<Rightarrow> ExecutionStatisticsCollector \<Rightarrow> ExecutionStatisticsCollector" where
  "setParallelExecutionInfo levelCount maxConc c =
     c\<lparr>parallelExecution := True, statParallelLevels := Some levelCount,
       statMaxConcurrency := Some maxConc\<rparr>"

definition setSequentialExecution :: "ExecutionStatisticsCollector \<Rightarrow> ExecutionStatisticsCollector" where
  "setSequentialExecution c =
     c\<lparr>parallelExecution := False, statParallelLevels := None, statMaxConcurrency := None\<rparr>"

section \<open>ExecutionStrategy\<close>

text \<open>
  \<open>maxConcurrency\<close> and \<open>builderTimeout\<close> are optional non-negative integers; a missing
  \<open>continueOnError\<close> is \<open>False\<close>. A timeout is a safe integer, one up to
  \<open>Number.MAX_SAFE_INTEGER\<close> = \<open>2^53 - 1\<close>: a 53-bit word, read with \<open>unat\<close> and never
  calculated with. Up to there every integer is a JavaScript number of its own and a
  template literal prints its decimal digits.
\<close>

type_synonym safe_integer = "53 word"

record ExecutionOptions =
  optMaxConcurrency :: "nat option"
  builderTimeout :: "safe_integer option"
  continueOnError :: bool

record ExecutionContext =
  initialData :: DataSet

text \<open>The decimal digits of a safe integer, as a template literal prints it.\<close>

fun digits :: "nat \<Rightarrow> string" where
  "digits n = (if n < 10 then [''0123456789'' ! n]
               else digits (n div 10) @ [''0123456789'' ! (n mod 10)])"

declare digits.simps [simp del]

definition Error :: "string \<Rightarrow> JsError" where
  "Error msg = JsError ''Error'' msg"

text \<open>
  \<open>BuilderExecutionError\<close> calls \<open>super(message, cause)\<close>. The second argument of \<open>Error\<close> is
  an options object, of which the constructor reads the \<open>cause\<close> property: the new error's
  cause is the cause of the error that was passed, not that error.
\<close>

definition BuilderExecutionError :: "string \<Rightarrow> string \<Rightarrow> JsError \<Rightarrow> JsError" where
  "BuilderExecutionError builderName dataType cause =
     JsErrorObject ''BuilderExecutionError''
       (''Builder '' @ [CHR 0x27] @ builderName @ [CHR 0x27] @ '' failed to build data type ''
          @ [CHR 0x27] @ dataType @ [CHR 0x27] @ '': '' @ message cause)
       (error_cause cause)"

definition cloneDataSet :: "DataSet \<Rightarrow> DataSetImpl" where
  "cloneDataSet dataSet = (case dataSet of IsDataSetImpl ds \<Rightarrow> clone ds | OtherDataSet other \<Rightarrow> [])"

text \<open>
  Node's \<open>setTimeout\<close> sets a delay above \<open>2^31 - 1\<close> or below 1 to 1.
\<close>

definition setTimeout_delay :: "nat \<Rightarrow> nat" where
  "setTimeout_delay ms = (if ms < 1 \<or> 2147483647 < ms then 1 else ms)"

text \<open>
  \<open>withTimeout\<close> races the promise against a timer of \<open>timeoutMs\<close>, which fires when its
  delay has elapsed. The promise wins when it settles in an earlier millisecond, the timer
  when it fires in an earlier one; in the same millisecond the last argument says whether
  the promise comes first (see \<open>settlesBeforeTimer\<close>). The message prints the configured
  bound, not the delay.
\<close>

definition withTimeout ::
  "('a, thrown) promise \<Rightarrow> safe_integer \<Rightarrow> string \<Rightarrow> bool \<Rightarrow> ('a, thrown) promise" where
  "withTimeout p timeoutMs dataType promiseFirst =
     (let delay = setTimeout_delay (unat timeoutMs);
          timedOut = Rejects delay
            (ErrorObject (Error (''Builder for '' @ dataType @ '' timed out after ''
                                   @ digits (unat timeoutMs) @ ''ms'')))
      in case p of
           Resolves d v \<Rightarrow> if d < delay \<or> (d = delay \<and> promiseFirst) then p else timedOut
         | Rejects d e \<Rightarrow> if d < delay \<or> (d = delay \<and> promiseFirst) then p else timedOut
         | NeverSettles \<Rightarrow> timedOut)"

text \<open>
  The state of a run: the working dataset (\<open>resultDataSet\<close> in the source), the collector,
  and two logs that the source does not keep: the data types whose builder was invoked, and
  the lines written with \<open>console.warn\<close>.
\<close>

record run_state =
  resultDataSet :: DataSetImpl
  collector :: ExecutionStatisticsCollector
  invoked :: "string list"
  console :: "string list"

datatype effect =
    RecordSkippedBuilder
  | BuilderInvoked string
  | RecordBuilderExecution string nat
  | ConsoleWarn string

fun apply_effect :: "effect \<Rightarrow> run_state \<Rightarrow> run_state" where
  "apply_effect RecordSkippedBuilder st = st\<lparr>collector := recordSkippedBuilder (collector st)\<rparr>"
| "apply_effect (BuilderInvoked dataType) st = st\<lparr>invoked := invoked st @ [dataType]\<rparr>"
| "apply_effect (RecordBuilderExecution dataType time) st =
     st\<lparr>collector := recordBuilderExecution dataType time (collector st)\<rparr>"
| "apply_effect (ConsoleWarn line) st = st\<lparr>console := console st @ [line]\<rparr>"

record step =
  step_dataType :: string
  skipped :: bool
  result :: "Data option"
  executionTime :: nat

text \<open>
  \<open>executeBuilder\<close> is an \<open>async\<close> function: what it does up to its \<open>await\<close> happens at the
  call (\<open>at_call\<close>), the rest when the awaited promise settles (\<open>at_settle\<close>). The promise
  it returns settles at instant 0 when the function returns or throws before the \<open>await\<close>,
  and at instant \<open>d + 1\<close> when the awaited promise settles after \<open>d\<close> milliseconds. The
  recorded \<open>executionTime\<close> is that \<open>d\<close>.
\<close>

record builder_step =
  at_call :: "effect list"
  settles :: "(step, JsError) promise"
  at_settle :: "effect list"

definition executeBuilder ::
  "BuilderRegistry \<Rightarrow> ExecutionOptions \<Rightarrow> string \<Rightarrow> DataSetImpl \<Rightarrow> builder_step" where
  "executeBuilder registry options dataType ds =
     (if contains ds dataType then
        \<lparr>at_call = [RecordSkippedBuilder],
         settles = Resolves 0 \<lparr>step_dataType = dataType, skipped = True, result = None, executionTime = 0\<rparr>,
         at_settle = []\<rparr>
      else case map_of registry dataType of
        None \<Rightarrow>
          \<lparr>at_call = [],
           settles = Rejects 0 (Error (''No builder found for data type: '' @ dataType)),
           at_settle = []\<rparr>
      | Some builder \<Rightarrow>
          (let buildPromise = build builder ds;
               raced = (case builderTimeout options of
                          None \<Rightarrow> buildPromise
                        | Some timeoutMs \<Rightarrow>
                            if timeoutMs = 0 then buildPromise
                            else withTimeout buildPromise timeoutMs dataType
                                   (settlesBeforeTimer builder))
           in case raced of
                Resolves d r \<Rightarrow>
                  \<lparr>at_call = [BuilderInvoked dataType],
                   settles = Resolves (Suc d)
                     \<lparr>step_dataType = dataType, skipped = False, result = Some r, executionTime = d\<rparr>,
                   at_settle = [RecordBuilderExecution dataType d]\<rparr>
              | Rejects d err \<Rightarrow>
                  (let cause = (case err of ErrorObject e \<Rightarrow> e | OtherValue s \<Rightarrow> Error s);
                       builderName = name builder
                   in if continueOnError options then
                        \<lparr>at_call = [BuilderInvoked dataType],
                         settles = Resolves (Suc d)
                           \<lparr>step_dataType = dataType, skipped = False, result = None, executionTime = 0\<rparr>,
                         at_settle = [ConsoleWarn (''Builder '' @ builderName @ '' failed for ''
                             @ dataType @ '', continuing execution: '' @ message cause)]\<rparr>
                      else
                        \<lparr>at_call = [BuilderInvoked dataType],
                         settles = Rejects (Suc d) (BuilderExecutionError builderName dataType cause),
                         at_settle = []\<rparr>)
              | NeverSettles \<Rightarrow>
                  \<lparr>at_call = [BuilderInvoked dataType], settles = NeverSettles, at_settle = []\<rparr>))"

text \<open>A run completes, fails with the error its promise rejects with, or never returns.\<close>

datatype 'a run = Completed 'a | Failed JsError | Hangs

definition add_result :: "step \<Rightarrow> run_state \<Rightarrow> run_state" where
  "add_result r st =
     (case result r of None \<Rightarrow> st
      | Some d \<Rightarrow> st\<lparr>resultDataSet := add d (resultDataSet st)\<rparr>)"

text \<open>
  A run starts on a clone of the initial data, with the collector as the strategy has set
  it up, and with empty logs.
\<close>

definition initial_state :: "ExecutionStatisticsCollector \<Rightarrow> ExecutionContext \<Rightarrow> run_state" where
  "initial_state c context =
     \<lparr>resultDataSet = cloneDataSet (initialData context), collector = c,
      invoked = [], console = []\<rparr>"

subsection \<open>SequentialExecutionStrategy\<close>

fun sequential_loop ::
  "BuilderRegistry \<Rightarrow> ExecutionOptions \<Rightarrow> string list \<Rightarrow> run_state \<Rightarrow> run_state run" where
  "sequential_loop registry options [] st = Completed st"
| "sequential_loop registry options (dataType # rest) st =
     (let b = executeBuilder registry options dataType (resultDataSet st);
          st1 = fold apply_effect (at_call b) st
      in case settles b of
           Resolves i r \<Rightarrow>
             sequential_loop registry options rest (add_result r (fold apply_effect (at_settle b) st1))
         | Rejects i e \<Rightarrow> Failed e
         | NeverSettles \<Rightarrow> Hangs)"

record ExecutionResult =
  dataSet :: DataSetImpl
  usedExecutionOrder :: "string list"
  stats :: ExecutionStatisticsCollector

definition finish :: "ExecutionPlan \<Rightarrow> run_state run \<Rightarrow> (ExecutionResult \<times> run_state) run" where
  "finish plan r =
     (case r of
        Completed st \<Rightarrow>
          Completed (\<lparr>dataSet = resultDataSet st, usedExecutionOrder = executionOrder plan,
                       stats = stopExecution (collector st)\<rparr>, st)
      | Failed e \<Rightarrow> Failed e
      | Hangs \<Rightarrow> Hangs)"

definition execute_sequential ::
  "BuilderRegistry \<Rightarrow> ExecutionStatisticsCollector \<Rightarrow> ExecutionContext \<Rightarrow> ExecutionPlan
     \<Rightarrow> ExecutionOptions \<Rightarrow> (ExecutionResult \<times> run_state) run" where
  "execute_sequential registry statisticsCollector context plan options =
     finish plan
       (sequential_loop registry options (executionOrder plan)
          (initial_state (setSequentialExecution (startExecution statisticsCollector)) context))"

subsection \<open>ParallelExecutionStrategy\<close>

text \<open>
  \<open>executeBatch\<close> calls \<open>executeBuilder\<close> for every member in turn, all on the same
  contents of the dataset, and awaits \<open>Promise.all\<close>: the batch fails with the rejection of
  the smallest instant (the first of the batch among equal instants), never returns when no
  member rejects and one never settles, and otherwise adds the results in batch order. The
  members' settle effects are applied in the order of their instants.
\<close>

definition instant :: "builder_step \<Rightarrow> nat" where
  "instant b = (case settles b of Resolves i r \<Rightarrow> i | Rejects i e \<Rightarrow> i | NeverSettles \<Rightarrow> 0)"

fun first_rejection :: "builder_step list \<Rightarrow> (nat \<times> JsError) option" where
  "first_rejection [] = None"
| "first_rejection (b # bs) =
     (case settles b of
        Rejects i e \<Rightarrow>
          (case first_rejection bs of
             None \<Rightarrow> Some (i, e)
           | Some (j, e') \<Rightarrow> if j < i then Some (j, e') else Some (i, e))
      | _ \<Rightarrow> first_rejection bs)"

definition resolved_steps :: "builder_step list \<Rightarrow> step list" where
  "resolved_steps bs = concat (map (\<lambda>b. case settles b of Resolves i r \<Rightarrow> [r] | _ \<Rightarrow> []) bs)"

definition executeBatch ::
  "BuilderRegistry \<Rightarrow> ExecutionOptions \<Rightarrow> string list \<Rightarrow> run_state \<Rightarrow> run_state run" where
  "executeBatch registry options batch st =
     (let bs = map (\<lambda>dataType. executeBuilder registry options dataType (resultDataSet st)) batch;
          st1 = fold (\<lambda>b. fold apply_effect (at_call b)) bs st
      in case first_rejection bs of
           Some (i, e) \<Rightarrow> Failed e
         | None \<Rightarrow>
             if NeverSettles \<in> set (map settles bs) then Hangs
             else Completed
                    (fold add_result (resolved_steps bs)
                       (fold (\<lambda>b. fold apply_effect (at_settle b)) (sort_key instant bs) st1)))"

text \<open>
  The batches of a level: \<open>for (i = 0; i < level.length; i += maxConcurrency)\<close>. A step of 0
  would never leave the loop; \<open>executeLevel\<close> does not reach it with one.
\<close>

function executeBatches ::
  "BuilderRegistry \<Rightarrow> ExecutionOptions \<Rightarrow> nat \<Rightarrow> string list \<Rightarrow> run_state \<Rightarrow> run_state run" where
  "executeBatches registry options 0 level st = (if level = [] then Completed st else Hangs)"
| "executeBatches registry options (Suc m) level st =
     (if level = [] then Completed st
      else case executeBatch registry options (take (Suc m) level) st of
             Completed st' \<Rightarrow> executeBatches registry options (Suc m) (drop (Suc m) level) st'
           | Failed e \<Rightarrow> Failed e
           | Hangs \<Rightarrow> Hangs)"
  by pat_completeness auto

termination executeBatches
  by (relation "measure (\<lambda>(registry, options, m, level, st). length level)") auto

definition executeLevel ::
  "BuilderRegistry \<Rightarrow> ExecutionOptions \<Rightarrow> string list \<Rightarrow> run_state \<Rightarrow> run_state run" where
  "executeLevel registry options level st =
     (let maxConc = (case optMaxConcurrency options of
                       None \<Rightarrow> length level
                     | Some n \<Rightarrow> if n = 0 then length level else n)
      in if maxConc \<ge> length level then executeBatch registry options level st
         else executeBatches registry options maxConc level st)"

fun parallel_loop ::
  "BuilderRegistry \<Rightarrow> ExecutionOptions \<Rightarrow> string list list \<Rightarrow> run_state \<Rightarrow> run_state run" where
  "parallel_loop registry options [] st = Completed st"
| "parallel_loop registry options (level # rest) st =
     (case executeLevel registry options level st of
        Completed st' \<Rightarrow> parallel_loop registry options rest st'
      | Failed e \<Rightarrow> Failed e
      | Hangs \<Rightarrow> Hangs)"

definition execute_parallel ::
  "BuilderRegistry \<Rightarrow> ExecutionStatisticsCollector \<Rightarrow> ExecutionContext \<Rightarrow> ExecutionPlan
     \<Rightarrow> ExecutionOptions \<Rightarrow> (ExecutionResult \<times> run_state) run" where
  "execute_parallel registry statisticsCollector context plan options =
     finish plan
       (parallel_loop registry options (parallelExecutionLevels plan)
          (initial_state
             (setParallelExecutionInfo (length (parallelExecutionLevels plan))
                (maxConcurrency plan) (startExecution statisticsCollector))
             context))"

subsection \<open>Views of a run\<close>





declare executeBatches.simps(2) [simp del]




text \<open>
  Names for parts of \<open>executeBuilder\<close>: the promise it awaits, the cause it makes of a thrown
  value, the error it wraps the cause in, and the step it returns when it continues after a
  failure. \<open>settles_within\<close> says that a promise settles no later than a number of
  milliseconds, \<open>settles_before\<close> that it settles in an earlier millisecond.
\<close>

definition settles_within :: "('a, 'e) promise \<Rightarrow> nat \<Rightarrow> bool" where
  "settles_within p ms = (case p of Resolves d v \<Rightarrow> d \<le> ms | Rejects d e \<Rightarrow> d \<le> ms | NeverSettles \<Rightarrow> False)"


definition timeout_error :: "string \<Rightarrow> safe_integer \<Rightarrow> JsError" where
  "timeout_error dataType ms =
     JsError ''Error'' (''Builder for '' @ dataType @ '' timed out after '' @ digits (unat ms) @ ''ms'')"

definition awaited ::
  "ExecutionOptions \<Rightarrow> string \<Rightarrow> DataBuilder \<Rightarrow> DataSetImpl \<Rightarrow> (Data, thrown) promise" where
  "awaited options dataType builder ds =
     (case builderTimeout options of
        None \<Rightarrow> build builder ds
      | Some timeoutMs \<Rightarrow>
          if timeoutMs = 0 then build builder ds
          else withTimeout (build builder ds) timeoutMs dataType (settlesBeforeTimer builder))"

definition cause_of :: "thrown \<Rightarrow> JsError" where
  "cause_of err = (case err of ErrorObject e \<Rightarrow> e | OtherValue s \<Rightarrow> Error s)"

definition wrapped :: "DataBuilder \<Rightarrow> string \<Rightarrow> thrown \<Rightarrow> JsError" where
  "wrapped builder dataType err =
     JsErrorObject ''BuilderExecutionError''
       (''Builder '' @ [CHR 0x27] @ name builder @ [CHR 0x27] @ '' failed to build data type ''
          @ [CHR 0x27] @ dataType @ [CHR 0x27] @ '': '' @ message (cause_of err))
       (error_cause (cause_of err))"

definition omitted_step :: "DataBuilder \<Rightarrow> string \<Rightarrow> nat \<Rightarrow> thrown \<Rightarrow> builder_step" where
  "omitted_step builder dataType d err =
     \<lparr>at_call = [BuilderInvoked dataType],
      settles = Resolves (Suc d)
        \<lparr>step_dataType = dataType, skipped = False, result = None, executionTime = 0\<rparr>,
      at_settle = [ConsoleWarn (''Builder '' @ name builder @ '' failed for '' @ dataType
                     @ '', continuing execution: '' @ message (cause_of err))]\<rparr>"







section \<open>Dependency relation of a graph\<close>

text \<open>
  \<open>edges g\<close> relates a node to each of its dependencies; the graph is acyclic when this
  relation is. \<open>deps_first\<close> says that the dependencies of every entry of a sequence stand
  before it.
\<close>

definition edges :: "DependencyGraph \<Rightarrow> (string \<times> string) set" where
  "edges g = {(k, d). d \<in> set (node_dependencies g k)}"

definition deps_first :: "DependencyGraph \<Rightarrow> string list \<Rightarrow> bool" where
  "deps_first g res = (\<forall>i < length res. set (node_dependencies g (res ! i)) \<subseteq> set (take i res))"

definition gray :: "string set \<times> string list \<Rightarrow> string set" where
  "gray st = fst st - set (snd st)"

definition visit_inv :: "DependencyGraph \<Rightarrow> string set \<times> string list \<Rightarrow> bool" where
  "visit_inv g st = (set (snd st) \<subseteq> fst st \<and> distinct (snd st) \<and> deps_first g (snd st))"

definition visit_post ::
  "DependencyGraph \<Rightarrow> string set \<times> string list \<Rightarrow> string set \<times> string list \<Rightarrow> bool" where
  "visit_post g st st' = (visit_inv g st' \<and> gray st' = gray st \<and> set (snd st) \<subseteq> set (snd st'))"

subsection \<open>Cycle detection\<close>

text \<open>
  A key is black when it is visited and off the recursion stack. While no cycle has been
  reported, the black keys are closed under dependencies and carry a rank that decreases
  along every dependency; when \<open>detectCycles\<close> ends with an empty list every key is black,
  so the graph is acyclic.
\<close>

definition black :: "cycle_state \<Rightarrow> string set" where
  "black st = fst st - fst (snd st)"

definition dfs_inv :: "DependencyGraph \<Rightarrow> cycle_state \<Rightarrow> bool" where
  "dfs_inv g st = (\<exists>f :: string \<Rightarrow> nat.
      \<forall>k \<in> black st. \<forall>d \<in> set (node_dependencies g k). d \<in> black st \<and> f d < f k)"

definition dfs_post :: "DependencyGraph \<Rightarrow> cycle_state \<Rightarrow> cycle_state \<Rightarrow> bool" where
  "dfs_post g st st' = (dfs_inv g st' \<and> fst (snd st') = fst (snd st) \<and> black st \<subseteq> black st'
      \<and> fst st \<subseteq> fst st')"

definition detect_step :: "DependencyGraph \<Rightarrow> string \<Rightarrow> cycle_state \<Rightarrow> cycle_state" where
  "detect_step g nodeKey st = (if nodeKey \<notin> fst st then snd (dfs g nodeKey [] st) else st)"

subsection \<open>Parallel levels\<close>

text \<open>
  \<open>levels_respect\<close>: every dependency of a member of level \<open>i\<close> is a member of a level
  with a smaller index.
\<close>

definition levels_respect :: "DependencyGraph \<Rightarrow> string list list \<Rightarrow> bool" where
  "levels_respect g levels =
     (\<forall>i < length levels. \<forall>n \<in> set (levels ! i). \<forall>d \<in> set (node_dependencies g n).
        \<exists>j < i. d \<in> set (levels ! j))"

subsection \<open>Plan statistics\<close>

text \<open>
  The coefficient of variation as the specification words it: the population standard
  deviation of the level sizes over their mean. It is no number for an empty list and for
  a mean of zero.
\<close>

definition coefficientOfVariation :: "real list \<Rightarrow> number" where
  "coefficientOfVariation xs =
     (if xs = [] then None
      else (let n = real (length xs);
                mean = sum_list xs / n;
                deviation = sqrt (sum_list (map (\<lambda>x. (x - mean)\<^sup>2) xs) / n)
            in js_divide deviation mean))"

definition level_sizes :: "string list list \<Rightarrow> real list" where
  "level_sizes levels = map (\<lambda>level. real (length level)) levels"

text \<open>
  Two plan objects that are not produced by the planner: one claims validity with a count
  that differs from its order, one is marked invalid.
\<close>

definition handmade_plan :: ExecutionPlan where
  "handmade_plan =
     \<lparr>executionOrder = [], parallelExecutionLevels = [], missingBuilders = [], cycles = [],
      isValid = True, totalBuilders = 5, maxConcurrency = 0, dependencyGraph = []\<rparr>"

definition invalid_plan :: ExecutionPlan where
  "invalid_plan =
     \<lparr>executionOrder = [''A''], parallelExecutionLevels = [[''A'']], missingBuilders = [''Z''],
      cycles = [], isValid = False, totalBuilders = 1, maxConcurrency = 1, dependencyGraph = []\<rparr>"

section \<open>Scenarios\<close>

text \<open>
  Scenario 1: builders A (no dependencies), B and C (each consuming A).
  Scenario 2: builders X and Y consuming each other.
\<close>

definition scenario1 :: "DataBuilderMeta list" where
  "scenario1 =
     [\<lparr>name = ''ABuilder'', provides = ''A'', consumes = []\<rparr>,
      \<lparr>name = ''BBuilder'', provides = ''B'', consumes = [''A'']\<rparr>,
      \<lparr>name = ''CBuilder'', provides = ''C'', consumes = [''A'']\<rparr>]"

definition scenario2 :: "DataBuilderMeta list" where
  "scenario2 =
     [\<lparr>name = ''XBuilder'', provides = ''X'', consumes = [''Y'']\<rparr>,
      \<lparr>name = ''YBuilder'', provides = ''Y'', consumes = [''X'']\<rparr>]"

text \<open>
  Builders of the kind the strategy tests use: a source, a transformer of its output, one
  that throws, one that takes a second, and one that resolves with data of another
  builder's type.
\<close>

definition UserBuilder :: DataBuilder where
  "UserBuilder =
     \<lparr>name = ''UserBuilder'', provides = ''user'', consumes = [],
      build = (\<lambda>ds. Resolves 10 \<lparr>type = ''user'', payload = ''John Doe''\<rparr>),
      settlesBeforeTimer = True\<rparr>"

definition ProfileBuilder :: DataBuilder where
  "ProfileBuilder =
     \<lparr>name = ''ProfileBuilder'', provides = ''profile'', consumes = [''user''],
      build = (\<lambda>ds. case accessor ds ''user'' of
                       None \<Rightarrow> Rejects 0 (ErrorObject (Error ''User data not found''))
                     | Some user \<Rightarrow>
                         Resolves 15 \<lparr>type = ''profile'', payload = payload user @ '' (Profile)''\<rparr>),
      settlesBeforeTimer = True\<rparr>"

definition FailingBuilder :: DataBuilder where
  "FailingBuilder =
     \<lparr>name = ''FailingBuilder'', provides = ''failing'', consumes = [],
      build = (\<lambda>ds. Rejects 0 (ErrorObject (Error ''Intentional failure for testing''))),
      settlesBeforeTimer = True\<rparr>"

definition SlowBuilder :: DataBuilder where
  "SlowBuilder =
     \<lparr>name = ''SlowBuilder'', provides = ''slow'', consumes = [],
      build = (\<lambda>ds. Resolves 1000 \<lparr>type = ''slow'', payload = []\<rparr>),
      settlesBeforeTimer = True\<rparr>"


definition StuckBuilder :: DataBuilder where
  "StuckBuilder =
     \<lparr>name = ''StuckBuilder'', provides = ''stuck'', consumes = [],
      build = (\<lambda>ds. NeverSettles),
      settlesBeforeTimer = True\<rparr>"



definition test_registry :: BuilderRegistry where
  "test_registry =
     [(''user'', UserBuilder), (''profile'', ProfileBuilder), (''failing'', FailingBuilder),
      (''slow'', SlowBuilder)]"

definition plain_options :: ExecutionOptions where
  "plain_options = \<lparr>optMaxConcurrency = None, builderTimeout = None, continueOnError = False\<rparr>"


section \<open>The execution order is topological\<close>

lemma deps_first_snoc:
  "deps_first g (res @ [k]) = (deps_first g res \<and> set (node_dependencies g k) \<subseteq> set res)"
  by (auto simp: deps_first_def nth_append less_Suc_eq all_conj_distrib)

text \<open>
  The nodes marked visited and not yet appended are the callers on the stack; each of them
  reaches the node being entered, so in an acyclic graph a node that is entered again has
  already been appended.
\<close>

lemma visit_topological:
  "acyclic (edges g) \<Longrightarrow> visit_inv g st \<Longrightarrow> (\<forall>a \<in> gray st. (a, k) \<in> (edges g)\<^sup>+)
     \<Longrightarrow> visit_post g st (visit g k st) \<and> k \<in> set (snd (visit g k st))"
  "acyclic (edges g) \<Longrightarrow> visit_inv g st \<Longrightarrow> (\<forall>a \<in> gray st. \<forall>d \<in> set ds. (a, d) \<in> (edges g)\<^sup>+)
     \<Longrightarrow> visit_post g st (visit_each g ds st) \<and> set ds \<subseteq> set (snd (visit_each g ds st))"
proof (induction g k st and g ds st rule: visit_visit_each.induct)
  case (1 g node visited result)
  note acyc = \<open>acyclic (edges g)\<close>
  show ?case
  proof (cases "node \<in> visited")
    case True
    have "node \<notin> gray (visited, result)"
    proof
      assume "node \<in> gray (visited, result)"
      then have "(node, node) \<in> (edges g)\<^sup>+" using 1(4) by blast
      then show False using acyc by (simp add: acyclic_def)
    qed
    then have "node \<in> set result" using True by (simp add: gray_def)
    then show ?thesis using True 1(3) by (simp add: visit_post_def)
  next
    case False
    let ?st1 = "(insert node visited, result)"
    have notres: "node \<notin> set result" using False 1(3) by (auto simp: visit_inv_def)
    have inv1: "visit_inv g ?st1" using 1(3) by (auto simp: visit_inv_def)
    have gray1: "gray ?st1 = insert node (gray (visited, result))"
      using notres by (auto simp: gray_def)
    have pre1: "\<forall>a \<in> gray ?st1. \<forall>d \<in> set (node_dependencies g node). (a, d) \<in> (edges g)\<^sup>+"
    proof (intro ballI)
      fix a d assume a: "a \<in> gray ?st1" and d: "d \<in> set (node_dependencies g node)"
      have e: "(node, d) \<in> edges g" using d by (simp add: edges_def)
      show "(a, d) \<in> (edges g)\<^sup>+"
      proof (cases "a = node")
        case True then show ?thesis using e by blast
      next
        case False
        then have "(a, node) \<in> (edges g)\<^sup>+" using a gray1 1(4) by blast
        then show ?thesis using e by (rule trancl_into_trancl)
      qed
    qed
    obtain visited' result'
      where r: "visit_each g (node_dependencies g node) ?st1 = (visited', result')"
      by (cases "visit_each g (node_dependencies g node) ?st1")
    from 1(1)[OF False acyc inv1 pre1] r
    have post: "visit_post g ?st1 (visited', result')"
      and deps: "set (node_dependencies g node) \<subseteq> set result'" by simp_all
    have g': "gray (visited', result') = insert node (gray (visited, result))"
      using post gray1 by (simp add: visit_post_def)
    then have nv: "node \<in> visited'" and nr: "node \<notin> set result'" by (auto simp: gray_def)
    have ng: "node \<notin> gray (visited, result)" using False by (simp add: gray_def)
    have "gray (visited', result' @ [node]) = gray (visited, result)"
      using g' ng by (auto simp: gray_def)
    moreover have "visit_inv g (visited', result' @ [node])"
      using post nv nr deps by (auto simp: visit_post_def visit_inv_def deps_first_snoc)
    moreover have "set result \<subseteq> set (result' @ [node])"
      using post by (auto simp: visit_post_def)
    ultimately show ?thesis using False r by (simp add: visit_post_def)
  qed
next
  case (2 g st)
  then show ?case by (simp add: visit_post_def)
next
  case (3 g d ds st)
  note acyc = \<open>acyclic (edges g)\<close>
  have p1: "visit_post g st (visit g d st)" and d1: "d \<in> set (snd (visit g d st))"
    using 3(1)[OF acyc 3(4)] 3(5) by simp_all
  have inv1: "visit_inv g (visit g d st)" using p1 by (simp add: visit_post_def)
  have pre1: "\<forall>a \<in> gray (visit g d st). \<forall>d \<in> set ds. (a, d) \<in> (edges g)\<^sup>+"
    using p1 3(5) by (simp add: visit_post_def)
  have p2: "visit_post g (visit g d st) (visit_each g ds (visit g d st))"
    and d2: "set ds \<subseteq> set (snd (visit_each g ds (visit g d st)))"
    using 3(2)[OF acyc inv1 pre1] by simp_all
  show ?case using p1 p2 d1 d2 by (auto simp: visit_post_def)
qed

section \<open>Soundness of the cycle detection\<close>

lemma dfs_inv_finish:
  assumes inv: "dfs_inv g (v, insert k s, c)"
    and deps: "set (node_dependencies g k) \<subseteq> black (v, insert k s, c)"
    and kv: "k \<in> v"
  shows "dfs_inv g (v, insert k s - {k}, c)"
proof -
  let ?B = "black (v, insert k s, c)"
  from inv obtain f :: "string \<Rightarrow> nat"
    where f: "\<forall>a \<in> ?B. \<forall>d \<in> set (node_dependencies g a). d \<in> ?B \<and> f d < f a"
    unfolding dfs_inv_def by blast
  have kB: "k \<notin> ?B" by (simp add: black_def)
  let ?f = "f(k := Suc (sum_list (map f (node_dependencies g k))))"
  have H: "\<forall>a \<in> insert k ?B. \<forall>d \<in> set (node_dependencies g a). d \<in> insert k ?B \<and> ?f d < ?f a"
  proof (intro ballI)
    fix a d assume a: "a \<in> insert k ?B" and d: "d \<in> set (node_dependencies g a)"
    show "d \<in> insert k ?B \<and> ?f d < ?f a"
    proof (cases "a = k")
      case True
      then have dB: "d \<in> ?B" using d deps by blast
      then have "d \<noteq> k" using kB by blast
      moreover have "f d \<le> sum_list (map f (node_dependencies g k))"
        using d True by (intro member_le_sum_list) auto
      ultimately show ?thesis using True dB by simp
    next
      case False
      then have aB: "a \<in> ?B" using a by blast
      then have "d \<in> ?B" "f d < f a" using f d by blast+
      moreover then have "d \<noteq> k" using kB by blast
      ultimately show ?thesis using False by simp
    qed
  qed
  have Beq: "black (v, insert k s - {k}, c) = insert k ?B"
    using kv by (auto simp: black_def)
  show ?thesis unfolding dfs_inv_def Beq using H by blast
qed

lemma dfs_no_cycle:
  "dfs_inv g st \<Longrightarrow> \<not> fst (dfs g k p st)
     \<Longrightarrow> dfs_post g st (snd (dfs g k p st)) \<and> k \<in> black (snd (dfs g k p st))"
  "dfs_inv g st \<Longrightarrow> \<not> fst (dfs_each g ds p st)
     \<Longrightarrow> dfs_post g st (snd (dfs_each g ds p st)) \<and> set ds \<subseteq> black (snd (dfs_each g ds p st))"
proof (induction g k p st and g ds p st rule: dfs_dfs_each.induct)
  case (1 g nodeKey path visited recursionStack cyc)
  let ?st = "(visited, recursionStack, cyc)"
  let ?st1 = "(insert nodeKey visited, insert nodeKey recursionStack, cyc)"
  let ?r = "dfs_each g (node_dependencies g nodeKey) (path @ [nodeKey]) ?st1"
  have ns: "nodeKey \<notin> recursionStack" using 1(3) by (auto split: if_splits)
  show ?case
  proof (cases "nodeKey \<in> visited")
    case True
    then show ?thesis using ns 1(2) by (simp add: dfs_post_def black_def)
  next
    case False
    have nr: "\<not> fst ?r" using 1(3) ns False by (auto simp: Let_def split: if_splits)
    have b1: "black ?st1 = black ?st" using False by (auto simp: black_def)
    then have inv1: "dfs_inv g ?st1" using 1(2) by (simp add: dfs_inv_def)
    from 1(1)[OF ns False inv1 nr]
    have post: "dfs_post g ?st1 (snd ?r)"
      and deps: "set (node_dependencies g nodeKey) \<subseteq> black (snd ?r)" by simp_all
    obtain v2 s2 c2 where r0: "snd ?r = (v2, s2, c2)" by (cases "snd ?r")
    have "s2 = insert nodeKey recursionStack" using post r0 by (simp add: dfs_post_def)
    then have r: "snd ?r = (v2, insert nodeKey recursionStack, c2)" using r0 by simp
    have kv: "nodeKey \<in> v2" using post r by (auto simp: dfs_post_def)
    have res: "dfs g nodeKey path ?st = (False, (v2, insert nodeKey recursionStack - {nodeKey}, c2))"
      using ns False nr r by (simp add: Let_def)
    have inv2: "dfs_inv g (v2, insert nodeKey recursionStack - {nodeKey}, c2)"
    proof (rule dfs_inv_finish)
      show "dfs_inv g (v2, insert nodeKey recursionStack, c2)"
        using post r by (simp add: dfs_post_def)
      show "set (node_dependencies g nodeKey) \<subseteq> black (v2, insert nodeKey recursionStack, c2)"
        using deps r by simp
      show "nodeKey \<in> v2" by (rule kv)
    qed
    have "black ?st \<subseteq> black (v2, insert nodeKey recursionStack, c2)"
      using post r b1 by (simp add: dfs_post_def)
    then have bb: "black ?st \<subseteq> black (v2, insert nodeKey recursionStack - {nodeKey}, c2)"
      by (auto simp: black_def)
    have vv: "visited \<subseteq> v2" using post r by (auto simp: dfs_post_def)
    have ss: "insert nodeKey recursionStack - {nodeKey} = recursionStack" using ns by auto
    have kb: "nodeKey \<in> black (v2, insert nodeKey recursionStack - {nodeKey}, c2)"
      using kv by (simp add: black_def)
    show ?thesis unfolding res using inv2 bb vv ss kb by (simp add: dfs_post_def)
  qed
next
  case (2 g path st)
  then show ?case by (simp add: dfs_post_def)
next
  case (3 g dep deps path st)
  let ?r = "dfs g dep path st"
  have nr: "\<not> fst ?r" using 3(4) by (auto simp: Let_def split: if_splits)
  then have nr2: "\<not> fst (dfs_each g deps path (snd ?r))" using 3(4) by (simp add: Let_def)
  have p1: "dfs_post g st (snd ?r)" and d1: "dep \<in> black (snd ?r)"
    using 3(1)[OF 3(3) nr] by simp_all
  have inv1: "dfs_inv g (snd ?r)" using p1 by (simp add: dfs_post_def)
  have p2: "dfs_post g (snd ?r) (snd (dfs_each g deps path (snd ?r)))"
    and d2: "set deps \<subseteq> black (snd (dfs_each g deps path (snd ?r)))"
    using 3(2)[OF refl nr inv1 nr2] by simp_all
  have eq: "dfs_each g (dep # deps) path st = dfs_each g deps path (snd ?r)"
    using nr by (simp add: Let_def)
  show ?case unfolding eq using p1 p2 d1 d2 by (auto simp: dfs_post_def)
qed


lemma dfs_cycles_grow:
  "length (snd (snd st)) \<le> length (snd (snd (snd (dfs g k p st))))
     \<and> (fst (dfs g k p st) \<longrightarrow> snd (snd (snd (dfs g k p st))) \<noteq> [])"
  "length (snd (snd st)) \<le> length (snd (snd (snd (dfs_each g ds p st))))
     \<and> (fst (dfs_each g ds p st) \<longrightarrow> snd (snd (snd (dfs_each g ds p st))) \<noteq> [])"
proof (induction g k p st and g ds p st rule: dfs_dfs_each.induct)
  case (1 g nodeKey path visited recursionStack cyc)
  then show ?case by (auto simp: Let_def split: prod.splits)
next
  case (2 g path st)
  then show ?case by simp
next
  case (3 g dep deps path st)
  then show ?case by (auto simp: Let_def split: prod.splits)
qed

lemma detect_step_cycles_grow:
  "length (snd (snd st)) \<le> length (snd (snd (detect_step g k st)))"
  using dfs_cycles_grow(1)[of st g k "[]"] by (simp add: detect_step_def)

lemma detect_fold_cycles_grow:
  "length (snd (snd st)) \<le> length (snd (snd (fold (detect_step g) ks st)))"
proof (induction ks arbitrary: st)
  case Nil
  show ?case by simp
next
  case (Cons k ks)
  show ?case using detect_step_cycles_grow[of st g k] Cons[of "detect_step g k st"] by simp
qed

lemma detect_fold_inv:
  assumes "snd (snd (fold (detect_step g) ks st)) = []"
    and "dfs_inv g st" and "fst (snd st) = {}"
  shows "dfs_inv g (fold (detect_step g) ks st)
     \<and> fst (snd (fold (detect_step g) ks st)) = {}
     \<and> set ks \<union> fst st \<subseteq> fst (fold (detect_step g) ks st)"
  using assms
proof (induction ks arbitrary: st)
  case Nil
  then show ?case by simp
next
  case (Cons k ks)
  let ?st1 = "detect_step g k st"
  have fin: "snd (snd (fold (detect_step g) ks ?st1)) = []" using Cons.prems(1) by simp
  then have c1: "snd (snd ?st1) = []"
    using detect_fold_cycles_grow[of ?st1 g ks] by simp
  have step: "dfs_inv g ?st1 \<and> fst (snd ?st1) = {} \<and> insert k (fst st) \<subseteq> fst ?st1"
  proof (cases "k \<in> fst st")
    case True
    then show ?thesis using Cons.prems by (simp add: detect_step_def)
  next
    case False
    then have eq: "?st1 = snd (dfs g k [] st)" by (simp add: detect_step_def)
    have "\<not> fst (dfs g k [] st)" using dfs_cycles_grow(1)[of st g k "[]"] c1 eq by auto
    then have "dfs_post g st ?st1" "k \<in> black ?st1"
      using dfs_no_cycle(1)[OF Cons.prems(2), of k "[]"] eq by simp_all
    then show ?thesis using Cons.prems(3) by (auto simp: dfs_post_def black_def)
  qed
  from Cons.IH[OF fin] step
  show ?case by auto
qed

lemma detectCycles_fold:
  "detectCycles g = snd (snd (fold (detect_step g) (map fst g) ({}, {}, [])))"
  unfolding detectCycles_def detect_step_def by (rule refl)

lemma acyclic_ranked:
  fixes f :: "string \<Rightarrow> nat"
  assumes "\<And>k d. d \<in> set (node_dependencies g k) \<Longrightarrow> f d < f k"
  shows "acyclic (edges g)"
proof -
  have "edges g \<subseteq> (measure f)\<inverse>" using assms by (auto simp: edges_def)
  moreover have "acyclic ((measure f)\<inverse>)" by (simp add: wf_acyclic)
  ultimately show ?thesis by (rule acyclic_subset[rotated])
qed

lemma detectCycles_sound:
  assumes "detectCycles g = []"
  shows "acyclic (edges g)"
proof -
  let ?st = "fold (detect_step g) (map fst g) ({}, {}, [])"
  have "dfs_inv g ({}, {}, [])" by (simp add: dfs_inv_def black_def)
  then have inv: "dfs_inv g ?st" and stk: "fst (snd ?st) = {}" and vis: "graph_keys g \<subseteq> fst ?st"
    using detect_fold_inv[of g "map fst g" "({}, {}, [])"] assms
    by (simp_all add: detectCycles_fold graph_keys_def)
  from inv obtain f :: "string \<Rightarrow> nat"
    where f: "\<forall>k \<in> black ?st. \<forall>d \<in> set (node_dependencies g k). d \<in> black ?st \<and> f d < f k"
    unfolding dfs_inv_def by blast
  have bl: "graph_keys g \<subseteq> black ?st" using stk vis by (simp add: black_def)
  show ?thesis
  proof (rule acyclic_ranked[of g f])
    fix k d assume d: "d \<in> set (node_dependencies g k)"
    have "k \<in> graph_keys g"
    proof (rule ccontr)
      assume "k \<notin> graph_keys g"
      then have "node_dependencies g k = []" by (rule absent_node_no_dependencies)
      then show False using d by simp
    qed
    then show "f d < f k" using f bl d by blast
  qed
qed

section \<open>The execution order of an acyclic graph\<close>

lemma targets_loop_inv:
  assumes "acyclic (edges g)"
  shows "visit_inv g st \<Longrightarrow> gray st = {} \<Longrightarrow>
     (let st' = fold (\<lambda>targetType st.
                  case map_of g targetType of None \<Rightarrow> st | Some node \<Rightarrow> visit g targetType st) ts st
      in visit_inv g st' \<and> gray st' = {})"
proof (induction ts arbitrary: st)
  case Nil
  then show ?case by simp
next
  case (Cons t ts)
  show ?case
  proof (cases "map_of g t")
    case None
    then show ?thesis using Cons by simp
  next
    case (Some node)
    have "visit_post g st (visit g t st)"
      using visit_topological(1)[OF assms Cons.prems(1), of t] Cons.prems(2) by simp
    then have "visit_inv g (visit g t st)" "gray (visit g t st) = {}"
      using Cons.prems(2) by (simp_all add: visit_post_def)
    then show ?thesis using Cons.IH[of "visit g t st"] Some by simp
  qed
qed

lemma getExecutionOrder_deps_first:
  assumes "acyclic (edges g)"
  shows "distinct (getExecutionOrder g ts) \<and> deps_first g (getExecutionOrder g ts)"
  using targets_loop_inv[OF assms, of "({}, [])" ts]
  by (simp add: getExecutionOrder_def visit_inv_def gray_def deps_first_def Let_def)

lemma deps_first_index:
  assumes "deps_first g ord" and "i < length ord" and "d \<in> set (node_dependencies g (ord ! i))"
  shows "\<exists>j<i. ord ! j = d"
proof -
  have "d \<in> set (take i ord)" using assms unfolding deps_first_def by blast
  then obtain j where "j < length (take i ord)" "take i ord ! j = d"
    by (auto simp: in_set_conv_nth)
  then show ?thesis using assms(2) by (intro exI[of _ j]) simp
qed

section \<open>The parallel levels of a topological order\<close>

lemma levels_respect_snoc:
  assumes "levels_respect g levels"
    and "\<forall>n \<in> set level. set (node_dependencies g n) \<subseteq> set (concat levels)"
  shows "levels_respect g (levels @ [level])"
  unfolding levels_respect_def
proof (intro allI impI ballI)
  fix i n d
  assume i: "i < length (levels @ [level])" and n: "n \<in> set ((levels @ [level]) ! i)"
    and d: "d \<in> set (node_dependencies g n)"
  show "\<exists>j<i. d \<in> set ((levels @ [level]) ! j)"
  proof (cases "i < length levels")
    case True
    then have "n \<in> set (levels ! i)" using n by (simp add: nth_append)
    then have "\<exists>j<i. d \<in> set (levels ! j)"
      using assms(1) True d unfolding levels_respect_def by blast
    then obtain j where "j < i" "d \<in> set (levels ! j)" by blast
    then show ?thesis using True by (intro exI[of _ j]) (simp add: nth_append)
  next
    case False
    then have il: "i = length levels" using i by simp
    then have "n \<in> set level" using n by simp
    then have "d \<in> set (concat levels)" using assms(2) d by blast
    then obtain xs where "xs \<in> set levels" "d \<in> set xs" by auto
    then obtain j where "j < length levels" "d \<in> set (levels ! j)"
      by (auto simp: in_set_conv_nth)
    then show ?thesis using il by (intro exI[of _ j]) (simp add: nth_append)
  qed
qed

lemma currentLevel_nonempty:
  assumes df: "deps_first g ord" and ne: "set ord - processed \<noteq> {}"
  shows "currentLevel g ord processed \<noteq> []"
proof -
  define P where "P = (\<lambda>i. i < length ord \<and> ord ! i \<notin> processed)"
  from ne obtain x where "x \<in> set ord" "x \<notin> processed" by blast
  then obtain i0 where "P i0" unfolding P_def by (auto simp: in_set_conv_nth)
  define i where "i = (LEAST i. P i)"
  have Pi: "P i" unfolding i_def using \<open>P i0\<close> by (rule LeastI)
  have least: "\<And>j. j < i \<Longrightarrow> \<not> P j" unfolding i_def by (rule not_less_Least)
  have "set (take i ord) \<subseteq> processed"
  proof
    fix y assume "y \<in> set (take i ord)"
    then obtain j where j: "j < i" "j < length ord" "ord ! j = y"
      by (auto simp: in_set_conv_nth)
    then show "y \<in> processed" using least[of j] unfolding P_def by auto
  qed
  moreover have "set (node_dependencies g (ord ! i)) \<subseteq> set (take i ord)"
    using df Pi unfolding deps_first_def P_def by blast
  ultimately have "allDepsProcessed g processed (ord ! i)"
    by (auto simp: allDepsProcessed_def list_all_iff)
  then have "ord ! i \<in> set (currentLevel g ord processed)"
    using Pi unfolding P_def currentLevel_def by simp
  then show ?thesis by auto
qed

lemma calculateParallelLevels_loop_partition:
  assumes "distinct ord" and "deps_first g ord"
  shows "processed = set (concat levels) \<Longrightarrow> remaining = set ord - processed \<Longrightarrow>
     distinct (concat levels) \<Longrightarrow> set (concat levels) \<subseteq> set ord \<Longrightarrow> levels_respect g levels \<Longrightarrow>
     [] \<notin> set levels \<Longrightarrow>
     distinct (concat (calculateParallelLevels_loop g ord (levels, processed, remaining)))
     \<and> set (concat (calculateParallelLevels_loop g ord (levels, processed, remaining))) = set ord
     \<and> levels_respect g (calculateParallelLevels_loop g ord (levels, processed, remaining))
     \<and> [] \<notin> set (calculateParallelLevels_loop g ord (levels, processed, remaining))"
  using assms
proof (induction g ord "(levels, processed, remaining)" arbitrary: levels processed remaining
       rule: calculateParallelLevels_loop.induct)
  case (1 g ord levels processed remaining)
  show ?case
  proof (cases "remaining = {}")
    case True
    then show ?thesis using 1(2-7) by auto
  next
    case False
    let ?level = "currentLevel g ord processed"
    have ne: "?level \<noteq> []"
      using currentLevel_nonempty[OF \<open>deps_first g ord\<close>, of processed] False 1(3) by simp
    have sub: "set ?level \<subseteq> set ord - processed" by (auto simp: currentLevel_def)
    have dl: "distinct ?level" using \<open>distinct ord\<close> by (simp add: currentLevel_def)
    have deps: "\<forall>n \<in> set ?level. set (node_dependencies g n) \<subseteq> set (concat levels)"
      using 1(2) by (auto simp: currentLevel_def allDepsProcessed_def list_all_iff)
    have a: "processed \<union> set ?level = set (concat (levels @ [?level]))" using 1(2) by simp
    have b: "remaining - set ?level = set ord - (processed \<union> set ?level)" using 1(3) by auto
    have c: "distinct (concat (levels @ [?level]))" using 1(2,4) dl sub by auto
    have d: "set (concat (levels @ [?level])) \<subseteq> set ord" using 1(5) sub by auto
    have e: "levels_respect g (levels @ [?level])"
      using 1(6) deps by (rule levels_respect_snoc)
    have f: "[] \<notin> set (levels @ [?level])" using 1(7) ne by auto
    have "calculateParallelLevels_loop g ord (levels, processed, remaining) =
          calculateParallelLevels_loop g ord (levels @ [?level], processed \<union> set ?level, remaining - set ?level)"
      using False ne by (simp add: Let_def)
    then show ?thesis
      using 1(1)[OF False refl ne a b c d e f \<open>distinct ord\<close> \<open>deps_first g ord\<close>] by simp
  qed
qed

lemma calculateParallelLevels_partition:
  assumes "distinct ord" and "deps_first g ord"
  shows "distinct (concat (calculateParallelLevels g ord))
     \<and> set (concat (calculateParallelLevels g ord)) = set ord
     \<and> levels_respect g (calculateParallelLevels g ord)
     \<and> [] \<notin> set (calculateParallelLevels g ord)"
  unfolding calculateParallelLevels_def
  using calculateParallelLevels_loop_partition[OF assms, of "{}" "[]" "set ord"]
  by (simp add: levels_respect_def)

lemma valid_plan_fields:
  assumes "isValid (createExecutionPlan metadata targetData)"
  shows "detectCycles (buildDependencyGraph metadata) = []"
    and "findMissingDependencies (buildDependencyGraph metadata) targetData = []"
    and "dependencyGraph (createExecutionPlan metadata targetData) = buildDependencyGraph metadata"
    and "executionOrder (createExecutionPlan metadata targetData)
           = getExecutionOrder (buildDependencyGraph metadata) targetData"
    and "parallelExecutionLevels (createExecutionPlan metadata targetData)
           = calculateParallelLevels (buildDependencyGraph metadata)
               (getExecutionOrder (buildDependencyGraph metadata) targetData)"
    and "totalBuilders (createExecutionPlan metadata targetData)
           = length (getExecutionOrder (buildDependencyGraph metadata) targetData)"
  using assms unfolding createExecutionPlan_def Let_def
  by (simp_all split: if_splits)

section \<open>Plan statistics\<close>

lemma foldl_plus_sum_list:
  fixes a :: real
  shows "foldl (\<lambda>sum c. sum + f c) a xs = a + sum_list (map f xs)"
  by (induction xs arbitrary: a) simp_all

lemma calculateConcurrencyVariance_cv:
  "calculateConcurrencyVariance levels =
     (if length levels \<le> 1 then Some 0 else coefficientOfVariation (level_sizes levels))"
proof (cases "length levels \<le> 1")
  case True
  then show ?thesis by (simp add: calculateConcurrencyVariance_def)
next
  case False
  then have ne: "level_sizes levels \<noteq> []" by (auto simp: level_sizes_def)
  show ?thesis
    using False ne foldl_plus_sum_list[of "\<lambda>c. c" 0 "level_sizes levels"]
        foldl_plus_sum_list[of "\<lambda>c. (c - sum_list (level_sizes levels) / real (length levels))\<^sup>2" 0 "level_sizes levels"]
    by (simp add: calculateConcurrencyVariance_def coefficientOfVariation_def Let_def level_sizes_def)
qed

lemma coefficientOfVariation_single: "x \<noteq> 0 \<Longrightarrow> coefficientOfVariation [x] = Some 0"
  by (simp add: coefficientOfVariation_def js_divide_def)

lemma level_sizes_mean_pos:
  assumes "levels \<noteq> []" and "[] \<notin> set levels"
  shows "0 < sum_list (level_sizes levels) / real (length (level_sizes levels))"
proof -
  have "\<And>ls. [] \<notin> set ls \<Longrightarrow> real (length ls) \<le> sum_list (level_sizes ls)"
  proof -
    fix ls :: "string list list" show "[] \<notin> set ls \<Longrightarrow> real (length ls) \<le> sum_list (level_sizes ls)"
    proof (induction ls)
      case Nil
      show ?case by (simp add: level_sizes_def)
    next
      case (Cons l ls)
      then have "1 \<le> real (length l)" by (cases l) auto
      then show ?case using Cons by (simp add: level_sizes_def)
    qed
  qed
  then have le: "real (length levels) \<le> sum_list (level_sizes levels)" using assms(2) by blast
  have pos: "0 < real (length levels)" using assms(1) by simp
  have "0 < sum_list (level_sizes levels)" using le pos by linarith
  moreover have "0 < real (length (level_sizes levels))" using pos by (simp add: level_sizes_def)
  ultimately show ?thesis by (rule divide_pos_pos)
qed

lemma coefficientOfVariation_levels:
  assumes "levels \<noteq> []" and "[] \<notin> set levels"
  shows "\<exists>cv. coefficientOfVariation (level_sizes levels) = Some cv \<and>
              calculateConcurrencyVariance levels = Some cv"
proof -
  have ne: "level_sizes levels \<noteq> []" using assms(1) by (simp add: level_sizes_def)
  have "sum_list (level_sizes levels) / real (length (level_sizes levels)) \<noteq> 0"
    using level_sizes_mean_pos[OF assms] by (metis order_less_irrefl)
  then obtain cv where cv: "coefficientOfVariation (level_sizes levels) = Some cv"
    using ne by (simp add: coefficientOfVariation_def Let_def js_divide_def)
  show ?thesis
  proof (cases "length levels \<le> 1")
    case True
    then obtain l where l: "levels = [l]" using assms(1) by (cases levels) auto
    then have "l \<noteq> []" using assms(2) by auto
    then have "coefficientOfVariation (level_sizes levels) = Some 0"
      using l by (simp add: level_sizes_def coefficientOfVariation_single)
    then show ?thesis using True by (simp add: calculateConcurrencyVariance_cv)
  next
    case False
    then show ?thesis using cv by (simp add: calculateConcurrencyVariance_cv)
  qed
qed

section \<open>Runs as sequences of steps and of batches\<close>






section \<open>Steps without a builder\<close>








section \<open>The step of a registered builder\<close>

lemma setTimeout_delay_le: "ms \<noteq> 0 \<Longrightarrow> setTimeout_delay ms \<le> ms"
  by (auto simp: setTimeout_delay_def)

lemma setTimeout_delay_pos: "0 < setTimeout_delay ms"
  by (auto simp: setTimeout_delay_def)

lemma withTimeout_late:
  "\<not> settles_within p (setTimeout_delay (unat ms)) \<Longrightarrow>
     withTimeout p ms t promiseFirst
       = Rejects (setTimeout_delay (unat ms)) (ErrorObject (timeout_error t ms))"
  by (auto simp: withTimeout_def settles_within_def timeout_error_def Error_def Let_def
           split: promise.splits)


lemma executeBuilder_awaited:
  assumes "\<not> contains ds t" and "map_of registry t = Some builder"
  shows "executeBuilder registry options t ds =
     (case awaited options t builder ds of
        Resolves d r \<Rightarrow>
          \<lparr>at_call = [BuilderInvoked t],
           settles = Resolves (Suc d)
             \<lparr>step_dataType = t, skipped = False, result = Some r, executionTime = d\<rparr>,
           at_settle = [RecordBuilderExecution t d]\<rparr>
      | Rejects d err \<Rightarrow>
          if continueOnError options then omitted_step builder t d err
          else \<lparr>at_call = [BuilderInvoked t], settles = Rejects (Suc d) (wrapped builder t err),
                at_settle = []\<rparr>
      | NeverSettles \<Rightarrow>
          \<lparr>at_call = [BuilderInvoked t], settles = NeverSettles, at_settle = []\<rparr>)"
  using assms
  by (simp add: executeBuilder_def awaited_def Let_def omitted_step_def wrapped_def cause_of_def
        BuilderExecutionError_def split: promise.splits)

section \<open>What a run does to the dataset and the logs\<close>

lemma apply_effect_dataset [simp]: "resultDataSet (apply_effect e st) = resultDataSet st"
  by (cases e) simp_all

lemma apply_effects_dataset [simp]: "resultDataSet (fold apply_effect es st) = resultDataSet st"
  by (induction es arbitrary: st) simp_all



lemma add_result_fields [simp]:
  "invoked (add_result r st) = invoked st"
  "collector (add_result r st) = collector st"
  by (simp_all add: add_result_def split: option.splits)












lemma fold_effects_dataset [simp]:
  "resultDataSet (fold (\<lambda>b. fold apply_effect (f b)) bs st) = resultDataSet st"
  by (induction bs arbitrary: st) simp_all



lemma fold_add_result_fields [simp]:
  "invoked (fold add_result rs st) = invoked st"
  "collector (fold add_result rs st) = collector st"
  by (induction rs arbitrary: st) simp_all











subsection \<open>A type that the dataset holds\<close>

















lemma initial_state_invoked [simp]: "invoked (initial_state c context) = []"
  by (simp add: initial_state_def)

section \<open>Rejections of a batch, and the rest of a run\<close>










section \<open>Facts about the scenarios\<close>


lemma scenario1_no_cycles: "detectCycles (buildDependencyGraph scenario1) = []"
  by code_simp

section \<open>Claims about the planner\<close>

text \<open>
  C1. For every builder set whose dependency graph is acyclic and every list of target
  types, \<open>getExecutionOrder\<close> returns a sequence without duplicates in which every
  dependency of a returned node stands at an earlier position than the node. The targets
  may repeat and may share ancestors.
\<close>

theorem getExecutionOrder_topological:
  assumes "acyclic (edges (buildDependencyGraph metadata))"
  shows "distinct (getExecutionOrder (buildDependencyGraph metadata) targetTypes) \<and>
    (\<forall>i < length (getExecutionOrder (buildDependencyGraph metadata) targetTypes).
       \<forall>d \<in> set (node_dependencies (buildDependencyGraph metadata)
                    (getExecutionOrder (buildDependencyGraph metadata) targetTypes ! i)).
         \<exists>j < i. getExecutionOrder (buildDependencyGraph metadata) targetTypes ! j = d)"
  using getExecutionOrder_deps_first[OF assms, of targetTypes] deps_first_index
  by blast

theorem getExecutionOrder_topological_witness:
  "acyclic (edges (buildDependencyGraph scenario1)) \<and>
   getExecutionOrder (buildDependencyGraph scenario1) [''B'', ''C'', ''B''] = [''A'', ''B'', ''C''] \<and>
   distinct (getExecutionOrder (buildDependencyGraph scenario1) [''B'', ''C'', ''B'']) \<and>
   node_dependencies (buildDependencyGraph scenario1) ''C'' = [''A''] \<and>
   (\<exists>j < 2. getExecutionOrder (buildDependencyGraph scenario1) [''B'', ''C'', ''B''] ! j = ''A'')"
proof -
  have h: "acyclic (edges (buildDependencyGraph scenario1))"
    using scenario1_no_cycles by (rule detectCycles_sound)
  have e: "getExecutionOrder (buildDependencyGraph scenario1) [''B'', ''C'', ''B''] = [''A'', ''B'', ''C'']"
    by code_simp
  have d: "node_dependencies (buildDependencyGraph scenario1) ''C'' = [''A'']"
    by code_simp
  have "2 < length (getExecutionOrder (buildDependencyGraph scenario1) [''B'', ''C'', ''B''])"
    and "''A'' \<in> set (node_dependencies (buildDependencyGraph scenario1)
            (getExecutionOrder (buildDependencyGraph scenario1) [''B'', ''C'', ''B''] ! 2))"
    using e d by simp_all
  then show ?thesis
    using h e d getExecutionOrder_topological[OF h, of "[''B'', ''C'', ''B'']"] by blast
qed

text \<open>
  C3. Whenever the plan returned by \<open>createExecutionPlan\<close> has \<open>isValid = false\<close>, which is
  the case exactly when \<open>detectCycles\<close> or \<open>findMissingDependencies\<close> returned a non-empty
  list, its execution order and its parallel levels are empty and its two counts are zero.
\<close>

theorem createExecutionPlan_invalid_empty:
  assumes "\<not> isValid (createExecutionPlan metadata targetData)"
  shows "(detectCycles (buildDependencyGraph metadata) \<noteq> []
          \<or> findMissingDependencies (buildDependencyGraph metadata) targetData \<noteq> []) \<and>
         executionOrder (createExecutionPlan metadata targetData) = [] \<and>
         parallelExecutionLevels (createExecutionPlan metadata targetData) = [] \<and>
         totalBuilders (createExecutionPlan metadata targetData) = 0 \<and>
         maxConcurrency (createExecutionPlan metadata targetData) = 0"
  using assms unfolding createExecutionPlan_def Let_def
  by (simp split: if_splits)

theorem createExecutionPlan_invalid_empty_witness:
  "\<not> isValid (createExecutionPlan scenario2 [''X'']) \<and>
   detectCycles (buildDependencyGraph scenario2) = [''Cycle detected: X -> Y -> X''] \<and>
   executionOrder (createExecutionPlan scenario2 [''X'']) = [] \<and>
   parallelExecutionLevels (createExecutionPlan scenario2 [''X'']) = [] \<and>
   totalBuilders (createExecutionPlan scenario2 [''X'']) = 0 \<and>
   maxConcurrency (createExecutionPlan scenario2 [''X'']) = 0"
proof -
  have h: "\<not> isValid (createExecutionPlan scenario2 [''X''])" by code_simp
  have c: "detectCycles (buildDependencyGraph scenario2) = [''Cycle detected: X -> Y -> X'']"
    by code_simp
  show ?thesis using h c createExecutionPlan_invalid_empty[OF h] by blast
qed

text \<open>
  C6. \<open>validateExecutionPlan\<close> throws a \<open>CircularDependencyError\<close> whose message lists the
  cycle traces when \<open>plan.cycles\<close> is not empty; otherwise a \<open>MissingBuilderError\<close> whose
  message lists the missing type names when \<open>plan.missingBuilders\<close> is not empty; otherwise
  it returns. Its result depends on the plan alone and it assigns nothing: the source
  function has no write, so the model has no state to return.
\<close>

theorem validateExecutionPlan_gate:
  "validateExecutionPlan plan =
     (if cycles plan \<noteq> [] then
        Inl (JsError ''CircularDependencyError''
               (''Circular dependencies detected: '' @ join '', '' (cycles plan)))
      else if missingBuilders plan \<noteq> [] then
        Inl (JsError ''MissingBuilderError''
               (''Missing builders for data types: '' @ join '', '' (missingBuilders plan)))
      else Inr ())"
  by (simp add: validateExecutionPlan_def CircularDependencyError_def MissingBuilderError_def)

text \<open>
  C2. In every plan that \<open>createExecutionPlan\<close> returns with \<open>isValid = true\<close>, the parallel
  levels partition the execution order: no type occurs twice in the levels, the levels
  hold exactly the types of the execution order, and every dependency of a member of a
  level belongs to a level with a strictly smaller index.
\<close>

theorem parallel_levels_partition:
  assumes "isValid (createExecutionPlan metadata targetData)"
  shows "distinct (concat (parallelExecutionLevels (createExecutionPlan metadata targetData))) \<and>
    set (concat (parallelExecutionLevels (createExecutionPlan metadata targetData)))
      = set (executionOrder (createExecutionPlan metadata targetData)) \<and>
    (\<forall>i < length (parallelExecutionLevels (createExecutionPlan metadata targetData)).
       \<forall>n \<in> set (parallelExecutionLevels (createExecutionPlan metadata targetData) ! i).
         \<forall>d \<in> set (node_dependencies (dependencyGraph (createExecutionPlan metadata targetData)) n).
           \<exists>j < i. d \<in> set (parallelExecutionLevels (createExecutionPlan metadata targetData) ! j))"
proof -
  let ?g = "buildDependencyGraph metadata"
  have "acyclic (edges ?g)" using valid_plan_fields(1)[OF assms] by (rule detectCycles_sound)
  then have "distinct (getExecutionOrder ?g targetData)" "deps_first ?g (getExecutionOrder ?g targetData)"
    using getExecutionOrder_deps_first by blast+
  then show ?thesis
    using calculateParallelLevels_partition[of "getExecutionOrder ?g targetData" ?g]
    unfolding valid_plan_fields(3,4,5)[OF assms] levels_respect_def by blast
qed

theorem parallel_levels_partition_witness:
  "isValid (createExecutionPlan scenario1 [''B'', ''C'']) \<and>
   executionOrder (createExecutionPlan scenario1 [''B'', ''C'']) = [''A'', ''B'', ''C''] \<and>
   parallelExecutionLevels (createExecutionPlan scenario1 [''B'', ''C'']) = [[''A''], [''B'', ''C'']] \<and>
   maxConcurrency (createExecutionPlan scenario1 [''B'', ''C'']) = 2 \<and>
   distinct (concat (parallelExecutionLevels (createExecutionPlan scenario1 [''B'', ''C'']))) \<and>
   set (concat (parallelExecutionLevels (createExecutionPlan scenario1 [''B'', ''C''])))
     = set (executionOrder (createExecutionPlan scenario1 [''B'', ''C'']))"
proof -
  have h: "isValid (createExecutionPlan scenario1 [''B'', ''C''])" by code_simp
  have o: "executionOrder (createExecutionPlan scenario1 [''B'', ''C'']) = [''A'', ''B'', ''C'']"
    by code_simp
  have l: "parallelExecutionLevels (createExecutionPlan scenario1 [''B'', ''C'']) = [[''A''], [''B'', ''C'']]"
    by code_simp
  have m: "maxConcurrency (createExecutionPlan scenario1 [''B'', ''C'']) = 2" by code_simp
  show ?thesis using h o l m parallel_levels_partition[OF h] by blast
qed

text \<open>
  C8, as stated, for every plan with \<open>isValid = true\<close>: \<open>averageConcurrency\<close> is
  \<open>totalBuilders\<close> divided by the number of levels, and \<open>sequentialEstimate\<close> is the number of
  entries of \<open>executionOrder\<close>. The plan for no targets is valid and has no level: the
  quotient is \<open>0 / 0\<close>, no number, where the guard \<open>totalBuilders > 0 ? ... : 0\<close> returns 0.
  And \<open>getExecutionPlanStats\<close> reads \<open>plan.totalBuilders\<close>, which a plan object that the
  planner did not build need not keep equal to the length of its order.
\<close>

theorem stats_counterexample:
  "isValid (createExecutionPlan scenario1 []) \<and>
   totalBuilders (createExecutionPlan scenario1 []) = 0 \<and>
   length (parallelExecutionLevels (createExecutionPlan scenario1 [])) = 0 \<and>
   averageConcurrency (getExecutionPlanStats (createExecutionPlan scenario1 [])) = Some 0 \<and>
   js_divide (real (totalBuilders (createExecutionPlan scenario1 [])))
       (real (length (parallelExecutionLevels (createExecutionPlan scenario1 [])))) = None \<and>
   coefficientOfVariation (level_sizes (parallelExecutionLevels (createExecutionPlan scenario1 [])))
     = None \<and>
   complexityScore (getExecutionPlanStats (createExecutionPlan scenario1 [])) = Some 0 \<and>
   isValid handmade_plan \<and>
   sequentialEstimate (getExecutionPlanStats handmade_plan) \<noteq> length (executionOrder handmade_plan)"
proof -
  let ?plan = "createExecutionPlan scenario1 []"
  have v: "isValid ?plan" by code_simp
  have t: "totalBuilders ?plan = 0" by code_simp
  have l: "parallelExecutionLevels ?plan = []" by code_simp
  have a: "averageConcurrency (getExecutionPlanStats ?plan) = Some 0"
    using v t by (simp add: getExecutionPlanStats_def Let_def)
  have c: "complexityScore (getExecutionPlanStats ?plan) = Some 0"
    using v t l by (simp add: getExecutionPlanStats_def Let_def calculateConcurrencyVariance_def)
  have q: "js_divide (real (totalBuilders ?plan)) (real (length (parallelExecutionLevels ?plan))) = None"
    using t l by (simp add: js_divide_def)
  have cv: "coefficientOfVariation (level_sizes (parallelExecutionLevels ?plan)) = None"
    using l by (simp add: coefficientOfVariation_def level_sizes_def)
  have h: "isValid handmade_plan \<and>
     sequentialEstimate (getExecutionPlanStats handmade_plan) \<noteq> length (executionOrder handmade_plan)"
    by (simp add: handmade_plan_def getExecutionPlanStats_def Let_def)
  have n: "length (parallelExecutionLevels ?plan) = 0" using l by simp
  show ?thesis
    by (intro conjI v t n a q cv c h[THEN conjunct1] h[THEN conjunct2])
qed

text \<open>
  C8, amended. For every plan produced by \<open>createExecutionPlan\<close> with \<open>isValid = true\<close>,
  \<open>sequentialEstimate\<close> is \<open>totalBuilders\<close>, the number of entries of \<open>executionOrder\<close>;
  \<open>averageConcurrency\<close> is \<open>totalBuilders\<close> divided by the number of levels when there is
  a builder (there is a level then), and 0 when there is none; \<open>complexityScore\<close> is
  \<open>totalBuilders\<close> times the number of levels times (1 + the coefficient of variation of
  the level sizes) when there is a level (the coefficient is a number then), and 0 when
  there is none. For every plan with \<open>isValid = false\<close> all statistics are zero.
\<close>

theorem getExecutionPlanStats_of_created_plan:
  fixes metadata targetData
  defines "plan \<equiv> createExecutionPlan metadata targetData"
  defines "planStats \<equiv> getExecutionPlanStats plan"
  defines "n \<equiv> length (parallelExecutionLevels plan)"
  shows "(isValid plan \<longrightarrow>
            sequentialEstimate planStats = length (executionOrder plan) \<and>
            totalBuilders plan = length (executionOrder plan) \<and>
            (totalBuilders plan > 0 \<longrightarrow>
               n > 0 \<and>
               averageConcurrency planStats = js_divide (real (totalBuilders plan)) (real n) \<and>
               averageConcurrency planStats = Some (real (totalBuilders plan) / real n)) \<and>
            (totalBuilders plan = 0 \<longrightarrow> averageConcurrency planStats = Some 0) \<and>
            (n > 0 \<longrightarrow>
               (\<exists>cv. coefficientOfVariation (level_sizes (parallelExecutionLevels plan)) = Some cv \<and>
                     complexityScore planStats
                       = Some (real (totalBuilders plan) * real n * (1 + cv)))) \<and>
            (n = 0 \<longrightarrow> complexityScore planStats = Some 0)) \<and>
         (\<not> isValid anyPlan \<longrightarrow>
            getExecutionPlanStats anyPlan =
              \<lparr>sequentialEstimate = 0, parallelLevels = 0, averageConcurrency = Some 0,
               dependencyDepth = 0, complexityScore = Some 0\<rparr>)"
proof (intro conjI impI)
  assume v: "isValid plan"
  let ?g = "buildDependencyGraph metadata"
  let ?ord = "getExecutionOrder ?g targetData"
  have vf: "executionOrder plan = ?ord" "parallelExecutionLevels plan = calculateParallelLevels ?g ?ord"
    "totalBuilders plan = length ?ord"
    using valid_plan_fields(4,5,6)[of metadata targetData] v unfolding plan_def by simp_all
  have "acyclic (edges ?g)"
    using valid_plan_fields(1)[of metadata targetData] v unfolding plan_def
    by (intro detectCycles_sound) simp
  then have "distinct ?ord" "deps_first ?g ?ord" using getExecutionOrder_deps_first by blast+
  then have part: "set (concat (parallelExecutionLevels plan)) = set ?ord"
    and nonempty: "[] \<notin> set (parallelExecutionLevels plan)"
    using calculateParallelLevels_partition[of ?ord ?g] vf(2) by simp_all
  show "sequentialEstimate planStats = length (executionOrder plan)"
    using v vf unfolding planStats_def by (simp add: getExecutionPlanStats_def Let_def)
  show "totalBuilders plan = length (executionOrder plan)" using vf by simp
  show "averageConcurrency planStats = Some 0" if "totalBuilders plan = 0"
    using v that unfolding planStats_def by (simp add: getExecutionPlanStats_def Let_def)
  {
    assume t: "totalBuilders plan > 0"
    then have "?ord \<noteq> []" using vf by simp
    then have "parallelExecutionLevels plan \<noteq> []" using part by auto
    then show n: "n > 0" unfolding n_def by simp
    show a: "averageConcurrency planStats = js_divide (real (totalBuilders plan)) (real n)"
      using v t unfolding planStats_def n_def by (simp add: getExecutionPlanStats_def Let_def)
    show "averageConcurrency planStats = Some (real (totalBuilders plan) / real n)"
      using a n by (simp add: js_divide_def)
  }
  {
    assume n: "n > 0"
    then have ne: "parallelExecutionLevels plan \<noteq> []" unfolding n_def by simp
    from coefficientOfVariation_levels[OF ne nonempty] obtain cv where
      cv: "coefficientOfVariation (level_sizes (parallelExecutionLevels plan)) = Some cv"
        "calculateConcurrencyVariance (parallelExecutionLevels plan) = Some cv"
      by blast
    have "complexityScore planStats = Some (real (totalBuilders plan) * real n * (1 + cv))"
      using v cv(2) unfolding planStats_def n_def by (simp add: getExecutionPlanStats_def Let_def)
    then show "\<exists>cv. coefficientOfVariation (level_sizes (parallelExecutionLevels plan)) = Some cv \<and>
                     complexityScore planStats
                       = Some (real (totalBuilders plan) * real n * (1 + cv))"
      using cv(1) by blast
  }
  show "complexityScore planStats = Some 0" if "n = 0"
  proof -
    have "parallelExecutionLevels plan = []" using that unfolding n_def by simp
    then show ?thesis
      using v unfolding planStats_def
      by (simp add: getExecutionPlanStats_def Let_def calculateConcurrencyVariance_def)
  qed
next
  assume "\<not> isValid anyPlan"
  then show "getExecutionPlanStats anyPlan =
              \<lparr>sequentialEstimate = 0, parallelLevels = 0, averageConcurrency = Some 0,
               dependencyDepth = 0, complexityScore = Some 0\<rparr>"
    by (simp add: getExecutionPlanStats_def)
qed

theorem getExecutionPlanStats_of_created_plan_witness:
  "isValid (createExecutionPlan scenario1 [''B'', ''C'']) \<and>
   sequentialEstimate (getExecutionPlanStats (createExecutionPlan scenario1 [''B'', ''C''])) = 3 \<and>
   length (executionOrder (createExecutionPlan scenario1 [''B'', ''C''])) = 3 \<and>
   averageConcurrency (getExecutionPlanStats (createExecutionPlan scenario1 [''B'', ''C'']))
     = Some (3 / 2) \<and>
   coefficientOfVariation [1, 2] = Some (1 / 3) \<and>
   complexityScore (getExecutionPlanStats (createExecutionPlan scenario1 [''B'', ''C''])) = Some 8 \<and>
   \<not> isValid invalid_plan \<and>
   getExecutionPlanStats invalid_plan =
     \<lparr>sequentialEstimate = 0, parallelLevels = 0, averageConcurrency = Some 0,
      dependencyDepth = 0, complexityScore = Some 0\<rparr>"
proof -
  let ?plan = "createExecutionPlan scenario1 [''B'', ''C'']"
  have h: "isValid ?plan" by code_simp
  have o: "executionOrder ?plan = [''A'', ''B'', ''C'']" by code_simp
  have l: "parallelExecutionLevels ?plan = [[''A''], [''B'', ''C'']]" by code_simp
  have t: "totalBuilders ?plan = 3" by code_simp
  have i: "\<not> isValid invalid_plan" by (simp add: invalid_plan_def)
  have "sqrt (1 / 4) = 1 / 2" by (simp add: real_sqrt_divide)
  then have cv: "coefficientOfVariation [1, 2] = Some (1 / 3)"
    by (simp add: coefficientOfVariation_def Let_def power2_eq_square js_divide_def)
  note th = getExecutionPlanStats_of_created_plan[of scenario1 "[''B'', ''C'']" invalid_plan]
  note valid = th[THEN conjunct1, THEN mp, OF h]
  have s: "sequentialEstimate (getExecutionPlanStats ?plan) = 3"
    using valid[THEN conjunct1] o by simp
  have a: "averageConcurrency (getExecutionPlanStats ?plan) = Some (3 / 2)"
    using valid[THEN conjunct2, THEN conjunct2, THEN conjunct1] t l by (simp add: js_divide_def)
  have "\<exists>c. coefficientOfVariation (level_sizes (parallelExecutionLevels ?plan)) = Some c \<and>
          complexityScore (getExecutionPlanStats ?plan)
            = Some (real (totalBuilders ?plan) * real (length (parallelExecutionLevels ?plan)) * (1 + c))"
    using valid[THEN conjunct2, THEN conjunct2, THEN conjunct2, THEN conjunct2, THEN conjunct1] l
    by simp
  then have c: "complexityScore (getExecutionPlanStats ?plan) = Some 8"
    using cv t l by (auto simp: level_sizes_def)
  have z: "getExecutionPlanStats invalid_plan =
     \<lparr>sequentialEstimate = 0, parallelLevels = 0, averageConcurrency = Some 0,
      dependencyDepth = 0, complexityScore = Some 0\<rparr>"
    using th[THEN conjunct2] i by simp
  show ?thesis using h s o a cv c i z by simp
qed

section \<open>Claims about the execution strategies\<close>

text \<open>
  C9. When the initial dataset of the context is not a \<open>DataSetImpl\<close>, both strategies
  start from an empty working dataset: the run, its result dataset, its statistics and its
  logs are those of the run on an empty \<open>DataSetImpl\<close>, whatever the caller had seeded, so
  no seeded value is carried along and no step is skipped for one.
\<close>

theorem foreign_initial_data_dropped:
  "cloneDataSet (OtherDataSet seeded) = [] \<and>
   execute_sequential registry c \<lparr>initialData = OtherDataSet seeded\<rparr> plan options
     = execute_sequential registry c \<lparr>initialData = IsDataSetImpl []\<rparr> plan options \<and>
   execute_parallel registry c \<lparr>initialData = OtherDataSet seeded\<rparr> plan options
     = execute_parallel registry c \<lparr>initialData = IsDataSetImpl []\<rparr> plan options"
  by (simp add: execute_sequential_def execute_parallel_def initial_state_def
        cloneDataSet_def clone_def)



text \<open>
  C7, as stated: the timed-out step rejects with a \<open>TimeoutError\<close>. The race rejects with a
  plain \<open>Error\<close> whose message names the data type and the bound; and a configured bound
  of 0 starts no race at all.
\<close>

theorem timeout_counterexample:
  "withTimeout (build SlowBuilder []) 100 ''slow'' (settlesBeforeTimer SlowBuilder)
     = Rejects 100 (ErrorObject (JsError ''Error'' ''Builder for slow timed out after 100ms'')) \<and>
   error_name (JsError ''Error'' ''Builder for slow timed out after 100ms'') \<noteq> ''TimeoutError'' \<and>
   settles (executeBuilder [(''stuck'', StuckBuilder)] (plain_options\<lparr>builderTimeout := Some 0\<rparr>)
              ''stuck'' []) = NeverSettles"
proof -
  have d: "digits 100 = ''100''" by code_simp
  have w: "withTimeout (build SlowBuilder []) 100 ''slow'' (settlesBeforeTimer SlowBuilder)
     = Rejects 100 (ErrorObject (JsError ''Error'' ''Builder for slow timed out after 100ms''))"
    by (simp add: withTimeout_def setTimeout_delay_def SlowBuilder_def Let_def Error_def d)
  have s: "settles (executeBuilder [(''stuck'', StuckBuilder)] (plain_options\<lparr>builderTimeout := Some 0\<rparr>)
              ''stuck'' []) = NeverSettles"
    by (simp add: executeBuilder_def contains_def StuckBuilder_def plain_options_def)
  show ?thesis unfolding w using s by simp
qed

text \<open>
  C7, amended. When a per-builder timeout of at least one millisecond is configured and the
  build call of a registered builder does not settle within the configured bound, the race
  rejects with a plain \<open>Error\<close> whose message is
  \<open>Builder for <type> timed out after <bound>ms\<close>, and the step deals with that rejection
  exactly as with a build call that throws this error: by default it rejects with an error
  named \<open>BuilderExecutionError\<close> whose message names the builder, the data type and the
  timeout message, under \<open>continueOnError\<close> it warns on the console and resolves without
  a result. The timer fires when \<open>setTimeout\<close>'s delay for the bound has elapsed, which is
  no later than the bound.
\<close>

theorem timeout_handled_as_thrown_error:
  assumes "builderTimeout options = Some ms" and "ms \<noteq> 0"
    and "\<not> contains ds t" and "map_of registry t = Some builder"
    and "\<not> settles_within (build builder ds) (unat ms)"
  shows "withTimeout (build builder ds) ms t (settlesBeforeTimer builder)
           = Rejects (setTimeout_delay (unat ms)) (ErrorObject (JsError ''Error''
               (''Builder for '' @ t @ '' timed out after '' @ digits (unat ms) @ ''ms''))) \<and>
         executeBuilder registry options t ds
           = executeBuilder
               [(t, builder\<lparr>build := \<lambda>ds. Rejects (setTimeout_delay (unat ms))
                                         (ErrorObject (timeout_error t ms))\<rparr>)]
               (options\<lparr>builderTimeout := None\<rparr>) t ds \<and>
         (\<not> continueOnError options \<longrightarrow>
            (\<exists>e. executeBuilder registry options t ds =
                   \<lparr>at_call = [BuilderInvoked t],
                    settles = Rejects (Suc (setTimeout_delay (unat ms))) e,
                    at_settle = []\<rparr> \<and>
                 error_name e = ''BuilderExecutionError'' \<and>
                 message e = ''Builder '' @ [CHR 0x27] @ name builder @ [CHR 0x27]
                       @ '' failed to build data type '' @ [CHR 0x27] @ t @ [CHR 0x27] @ '': ''
                       @ ''Builder for '' @ t @ '' timed out after '' @ digits (unat ms) @ ''ms'')) \<and>
         (continueOnError options \<longrightarrow>
            executeBuilder registry options t ds =
              \<lparr>at_call = [BuilderInvoked t],
               settles = Resolves (Suc (setTimeout_delay (unat ms)))
                 \<lparr>step_dataType = t, skipped = False, result = None, executionTime = 0\<rparr>,
               at_settle = [ConsoleWarn (''Builder '' @ name builder @ '' failed for '' @ t
                     @ '', continuing execution: ''
                     @ ''Builder for '' @ t @ '' timed out after '' @ digits (unat ms) @ ''ms'')]\<rparr>)"
proof -
  let ?delay = "setTimeout_delay (unat ms)"
  have "unat ms \<noteq> 0" using assms(2) by (simp add: unat_eq_0)
  then have "?delay \<le> unat ms" by (rule setTimeout_delay_le)
  then have late: "\<not> settles_within (build builder ds) ?delay"
    using assms(5) by (auto simp: settles_within_def split: promise.splits)
  have w: "withTimeout (build builder ds) ms t (settlesBeforeTimer builder)
             = Rejects ?delay (ErrorObject (timeout_error t ms))"
    using late by (rule withTimeout_late)
  have a: "awaited options t builder ds = Rejects ?delay (ErrorObject (timeout_error t ms))"
    using assms(1,2) w by (simp add: awaited_def)
  have e: "executeBuilder registry options t ds =
     (if continueOnError options then omitted_step builder t ?delay (ErrorObject (timeout_error t ms))
      else \<lparr>at_call = [BuilderInvoked t],
            settles = Rejects (Suc ?delay) (wrapped builder t (ErrorObject (timeout_error t ms))),
            at_settle = []\<rparr>)"
    using executeBuilder_awaited[OF assms(3,4), of options] a by simp
  let ?b = "builder\<lparr>build := \<lambda>ds. Rejects ?delay (ErrorObject (timeout_error t ms))\<rparr>"
  have "awaited (options\<lparr>builderTimeout := None\<rparr>) t ?b ds
          = Rejects ?delay (ErrorObject (timeout_error t ms))"
    by (simp add: awaited_def)
  then have e': "executeBuilder [(t, ?b)] (options\<lparr>builderTimeout := None\<rparr>) t ds =
     (if continueOnError options then omitted_step builder t ?delay (ErrorObject (timeout_error t ms))
      else \<lparr>at_call = [BuilderInvoked t],
            settles = Rejects (Suc ?delay) (wrapped builder t (ErrorObject (timeout_error t ms))),
            at_settle = []\<rparr>)"
    using executeBuilder_awaited[OF assms(3), of "[(t, ?b)]" ?b "options\<lparr>builderTimeout := None\<rparr>"]
    by (simp add: omitted_step_def wrapped_def)
  show ?thesis
    using w e e'
    by (simp add: timeout_error_def omitted_step_def wrapped_def cause_of_def)
qed

theorem timeout_handled_as_thrown_error_witness:
  "builderTimeout (plain_options\<lparr>builderTimeout := Some 100\<rparr>) = Some 100 \<and>
   (100 :: safe_integer) \<noteq> 0 \<and> \<not> contains [] ''slow'' \<and>
   map_of test_registry ''slow'' = Some SlowBuilder \<and>
   \<not> settles_within (build SlowBuilder []) (unat (100 :: safe_integer)) \<and>
   executeBuilder test_registry (plain_options\<lparr>builderTimeout := Some 100\<rparr>) ''slow'' [] =
     \<lparr>at_call = [BuilderInvoked ''slow''],
      settles = Rejects 101
        (JsError ''BuilderExecutionError''
           (''Builder '' @ [CHR 0x27] @ ''SlowBuilder'' @ [CHR 0x27]
              @ '' failed to build data type '' @ [CHR 0x27] @ ''slow'' @ [CHR 0x27]
              @ '': Builder for slow timed out after 100ms'')),
      at_settle = []\<rparr> \<and>
   executeBuilder test_registry
       (plain_options\<lparr>builderTimeout := Some 100, continueOnError := True\<rparr>) ''slow'' [] =
     \<lparr>at_call = [BuilderInvoked ''slow''],
      settles = Resolves 101
        \<lparr>step_dataType = ''slow'', skipped = False, result = None, executionTime = 0\<rparr>,
      at_settle = [ConsoleWarn
        ''Builder SlowBuilder failed for slow, continuing execution: Builder for slow timed out after 100ms'']\<rparr>"
proof -
  let ?opts = "plain_options\<lparr>builderTimeout := Some 100\<rparr>"
  let ?co = "plain_options\<lparr>builderTimeout := Some 100, continueOnError := True\<rparr>"
  have a: "builderTimeout ?opts = Some 100" "builderTimeout ?co = Some 100" by simp_all
  have b: "(100 :: safe_integer) \<noteq> 0" by simp
  have c: "\<not> contains [] ''slow''" by (simp add: contains_def)
  have d: "map_of test_registry ''slow'' = Some SlowBuilder" by (simp add: test_registry_def)
  have e: "\<not> settles_within (build SlowBuilder []) (unat (100 :: safe_integer))"
    by (simp add: SlowBuilder_def settles_within_def)
  have n: "name SlowBuilder = ''SlowBuilder''" by (simp add: SlowBuilder_def)
  have g: "digits 100 = ''100''" by code_simp
  have u: "unat (100 :: safe_integer) = 100" by simp
  have sd: "setTimeout_delay 100 = 100" by (simp add: setTimeout_delay_def)
  have f: "\<not> continueOnError ?opts" by (simp add: plain_options_def)
  have f': "continueOnError ?co" by simp
  note th = timeout_handled_as_thrown_error[OF a(1) b c d e]
  note th' = timeout_handled_as_thrown_error[OF a(2) b c d e]
  have s1: "executeBuilder test_registry ?opts ''slow'' [] =
     \<lparr>at_call = [BuilderInvoked ''slow''],
      settles = Rejects 101
        (JsError ''BuilderExecutionError''
           (''Builder '' @ [CHR 0x27] @ ''SlowBuilder'' @ [CHR 0x27]
              @ '' failed to build data type '' @ [CHR 0x27] @ ''slow'' @ [CHR 0x27]
              @ '': Builder for slow timed out after 100ms'')),
      at_settle = []\<rparr>"
  proof -
    obtain err where r: "executeBuilder test_registry ?opts ''slow'' [] =
         \<lparr>at_call = [BuilderInvoked ''slow''],
          settles = Rejects (Suc (setTimeout_delay (unat (100 :: safe_integer)))) err,
          at_settle = []\<rparr>"
        "error_name err = ''BuilderExecutionError''"
        "message err = ''Builder '' @ [CHR 0x27] @ name SlowBuilder @ [CHR 0x27]
                         @ '' failed to build data type '' @ [CHR 0x27] @ ''slow'' @ [CHR 0x27] @ '': ''
                         @ ''Builder for '' @ ''slow'' @ '' timed out after '' @ digits (unat (100 :: safe_integer)) @ ''ms''"
      using th[THEN conjunct2, THEN conjunct2, THEN conjunct1] f by blast
    have "settles (executeBuilder test_registry ?opts ''slow'' [])
            = Rejects 101 (BuilderExecutionError ''SlowBuilder'' ''slow''
                (Error ''Builder for slow timed out after 100ms''))"
      by (simp add: executeBuilder_def contains_def test_registry_def SlowBuilder_def
            withTimeout_def Let_def sd g plain_options_def)
    then have "error_cause err = None"
      by (subst (asm) r(1)) (simp add: BuilderExecutionError_def Error_def)
    then have "err = JsError ''BuilderExecutionError''
           (''Builder '' @ [CHR 0x27] @ ''SlowBuilder'' @ [CHR 0x27]
              @ '' failed to build data type '' @ [CHR 0x27] @ ''slow'' @ [CHR 0x27]
              @ '': Builder for slow timed out after 100ms'')"
      using r(2,3) by (cases err) (simp add: n g)
    then show ?thesis by (subst r(1)) (simp add: sd)
  qed
  have s2: "executeBuilder test_registry ?co ''slow'' [] =
     \<lparr>at_call = [BuilderInvoked ''slow''],
      settles = Resolves 101
        \<lparr>step_dataType = ''slow'', skipped = False, result = None, executionTime = 0\<rparr>,
      at_settle = [ConsoleWarn
        ''Builder SlowBuilder failed for slow, continuing execution: Builder for slow timed out after 100ms'']\<rparr>"
    using th'[THEN conjunct2, THEN conjunct2, THEN conjunct2] f' by (simp add: n g u sd)
  show ?thesis using a(1) b c d e s1 s2 by simp
qed







end
